theory Spec2Isabelle
  imports Main
begin

section \<open>Errors and the random source\<close>

text \<open>
  The exceptions that \<^verbatim>\<open>glitch_this.py\<close> can raise, as values. The first three are the
  \<^verbatim>\<open>Exception(...)\<close> objects that \<^verbatim>\<open>glitch_image\<close> raises itself; the others come from
  the library calls it makes: \<^verbatim>\<open>randint(a, b)\<close> with \<^verbatim>\<open>b < a\<close>, a NumPy element write
  out of bounds, a NumPy slice assignment whose shapes cannot be broadcast, a reshape
  of an array without rows, \<^verbatim>\<open>%\<close> by zero, and \<^verbatim>\<open>Image.fromarray\<close> given an array of more
  dimensions than the mode allows.
\<close>

datatype error =
    AmountOutOfRange
  | NoImageAtPath
  | FormatNotSupported
  | EmptyRange
  | IndexOutOfBounds
  | BroadcastMismatch
  | ReshapeFailure
  | ZeroModulo
  | TooManyDimensions

text \<open>
  The random source is a list of raw draws, read from the front; an exhausted list
  keeps giving 0. \<^verbatim>\<open>randint(a, b)\<close> raises on an empty range and otherwise maps the raw
  draw into \<open>[a, b]\<close>, both ends included: every value of the range can be drawn
  (lemma \<open>randint_onto\<close>) and nothing outside it (lemma \<open>randint_range\<close>).
\<close>

type_synonym rng = "nat list"

fun next_raw :: "rng \<Rightarrow> nat \<times> rng" where
  "next_raw [] = (0, [])"
| "next_raw (d # ds) = (d, ds)"

definition randint :: "int \<Rightarrow> int \<Rightarrow> rng \<Rightarrow> error + (int \<times> rng)" where
  "randint a b g =
     (if b < a then Inl EmptyRange
      else (case next_raw g of (d, g') \<Rightarrow> Inr (a + int (d mod nat (b - a + 1)), g')))"

section \<open>NumPy arrays: slices, slice assignment, element writes\<close>

text \<open>
  An array is the list of its rows. In the 3D view a row is a list of pixel tuples
  (of any type \<open>'p\<close>: a band shift moves tuples whole); in the flattened 2D view a row
  is a list of samples.

  A slice bound \<open>i\<close> on an axis of length \<open>n\<close>: a negative bound counts from the end,
  and every bound is clipped to \<open>[0, n]\<close>. An omitted lower bound is 0, an omitted
  upper bound is \<open>n\<close>; a slice whose stop is below its start is empty.
\<close>

definition clip_index :: "nat \<Rightarrow> int \<Rightarrow> nat" where
  "clip_index n i = (if i < 0 then nat (i + int n) else min (nat i) n)"

definition slice_start :: "nat \<Rightarrow> int option \<Rightarrow> nat" where
  "slice_start n lo = (case lo of None \<Rightarrow> 0 | Some i \<Rightarrow> clip_index n i)"

definition slice_stop :: "nat \<Rightarrow> int option \<Rightarrow> nat" where
  "slice_stop n hi = (case hi of None \<Rightarrow> n | Some i \<Rightarrow> clip_index n i)"

definition slice_len :: "nat \<Rightarrow> int option \<Rightarrow> int option \<Rightarrow> nat" where
  "slice_len n lo hi = slice_stop n hi - slice_start n lo"

definition slice :: "int option \<Rightarrow> int option \<Rightarrow> 'a list \<Rightarrow> 'a list" where
  "slice lo hi xs =
     take (slice_len (length xs) lo hi) (drop (slice_start (length xs) lo) xs)"

text \<open>
  \<^verbatim>\<open>arr[ylo:yhi, xlo:xhi]\<close> read from an array with \<open>ncols\<close> columns. The chunk carries
  its own column count, which NumPy knows from the shape even when the chunk has no
  rows.
\<close>

type_synonym 'p chunk = "nat \<times> 'p list list"

definition getslice2 ::
  "nat \<Rightarrow> int option \<Rightarrow> int option \<Rightarrow> int option \<Rightarrow> int option \<Rightarrow> 'p list list \<Rightarrow> 'p chunk" where
  "getslice2 ncols ylo yhi xlo xhi arr =
     (slice_len ncols xlo xhi, map (slice xlo xhi) (slice ylo yhi arr))"

text \<open>
  \<^verbatim>\<open>arr[ylo:yhi, xlo:xhi] = chunk\<close>. NumPy first compares the shapes: on each axis the
  chunk's length must equal the target's, or be 1 (the single row or column is then
  repeated); otherwise the assignment raises. Nothing outside the target rectangle is
  written.
\<close>

definition stretch :: "nat \<Rightarrow> 'a list \<Rightarrow> 'a list" where
  "stretch n xs = (if length xs = n then xs else replicate n (hd xs))"

definition setslice2 ::
  "nat \<Rightarrow> int option \<Rightarrow> int option \<Rightarrow> int option \<Rightarrow> int option \<Rightarrow> 'p chunk \<Rightarrow> 'p list list
     \<Rightarrow> error + 'p list list" where
  "setslice2 ncols ylo yhi xlo xhi ch arr =
     (let ya = slice_start (length arr) ylo; th = slice_len (length arr) ylo yhi;
          xa = slice_start ncols xlo; tw = slice_len ncols xlo xhi;
          w = fst ch; rows = snd ch
      in if (length rows \<noteq> th \<and> length rows \<noteq> 1) \<or> (w \<noteq> tw \<and> w \<noteq> 1)
         then Inl BroadcastMismatch
         else Inr (take ya arr
                   @ map2 (\<lambda>old new. take xa old @ stretch tw new @ drop (xa + tw) old)
                       (take th (drop ya arr)) (stretch th rows)
                   @ drop (ya + th) arr))"

text \<open>
  \<^verbatim>\<open>arr[r, c] = x\<close> on a 2D array: a negative index counts from the end, and an index
  outside \<open>[-n, n)\<close> raises IndexError.
\<close>

definition norm_index :: "nat \<Rightarrow> int \<Rightarrow> error + nat" where
  "norm_index n i =
     (let j = (if i < 0 then i + int n else i)
      in if 0 \<le> j \<and> j < int n then Inr (nat j) else Inl IndexOutOfBounds)"

definition setitem2 :: "'a list list \<Rightarrow> int \<Rightarrow> int \<Rightarrow> 'a \<Rightarrow> error + 'a list list" where
  "setitem2 arr r c x =
     (case norm_index (length arr) r of
        Inl e \<Rightarrow> Inl e
      | Inr r' \<Rightarrow>
          (case norm_index (length (arr ! r')) c of
             Inl e \<Rightarrow> Inl e
           | Inr c' \<Rightarrow> Inr (arr[r' := (arr ! r')[c' := x]])))"

text \<open>\<^verbatim>\<open>np.ndenumerate\<close> of a 2D array: every index pair with its value, row by row.\<close>

definition ndenumerate :: "'a list list \<Rightarrow> ((int \<times> int) \<times> 'a) list" where
  "ndenumerate arr =
     concat (map (\<lambda>(i, row). map (\<lambda>(j, x). ((int i, int j), x)) (enumerate 0 row))
                 (enumerate 0 arr))"

section \<open>The glitcher object\<close>

text \<open>
  The fields that \<^verbatim>\<open>glitch_image\<close> sets on \<^verbatim>\<open>self\<close>. The two arrays are separate NumPy
  objects (\<^verbatim>\<open>np.asarray(src_img)\<close> and \<^verbatim>\<open>np.array(src_img)\<close>), so they are two fields
  of the state and a write to one cannot reach the other. The array type is a
  parameter: rows of pixel tuples before the reshape, rows of samples after it.
\<close>

record 'arr glitcher =
  img_width :: int
  img_height :: int
  pixel_tuple_len :: int
  inputarr :: 'arr
  outputarr :: 'arr

text \<open>
  The shape NumPy guarantees and \<^verbatim>\<open>glitch_image\<close> records: both arrays have
  \<open>img_height\<close> rows of \<open>img_width\<close> pixel tuples.
\<close>

definition wf3 :: "'p list list glitcher \<Rightarrow> bool" where
  "wf3 st \<longleftrightarrow>
     0 \<le> img_width st \<and> 0 \<le> img_height st \<and>
     length (inputarr st) = nat (img_height st) \<and>
     length (outputarr st) = nat (img_height st) \<and>
     list_all (\<lambda>row. length row = nat (img_width st)) (inputarr st) \<and>
     list_all (\<lambda>row. length row = nat (img_width st)) (outputarr st)"

section \<open>Band shifts\<close>

text \<open>
  Lines 94-97 and 129-132, the same in both shifts: \<^verbatim>\<open>start_y = randint(0, img_height)\<close>,
  \<^verbatim>\<open>chunk_height = randint(1, int(img_height / 4))\<close>, then the clamp
  \<^verbatim>\<open>min(chunk_height, img_height - start_y)\<close> and \<^verbatim>\<open>stop_y = start_y + chunk_height\<close>.
  \<^verbatim>\<open>int(h / 4)\<close> truncates towards zero. The result is \<open>(start_y, stop_y)\<close>.

  In the two shifts below, \<open>n\<close> is the column count of both arrays (their
  \<^verbatim>\<open>shape[1]\<close>), which \<^verbatim>\<open>glitch_image\<close> has recorded as \<^verbatim>\<open>img_width\<close>; every other line
  is a line of the source, in its order.
\<close>

definition int_quarter :: "int \<Rightarrow> int" where
  "int_quarter h = (if 0 \<le> h then h div 4 else - ((- h) div 4))"

definition select_band :: "int \<Rightarrow> rng \<Rightarrow> error + ((int \<times> int) \<times> rng)" where
  "select_band h g =
     (case randint 0 h g of
        Inl e \<Rightarrow> Inl e
      | Inr (start_y, g1) \<Rightarrow>
          (case randint 1 (int_quarter h) g1 of
             Inl e \<Rightarrow> Inl e
           | Inr (chunk_height, g2) \<Rightarrow>
               Inr ((start_y, start_y + min chunk_height (h - start_y)), g2)))"

definition glitch_left ::
  "int \<Rightarrow> 'p list list glitcher \<times> rng \<Rightarrow> error + ('p list list glitcher \<times> rng)" where
  "glitch_left offset s =
     (case s of (st, g) \<Rightarrow>
       (case select_band (img_height st) g of
          Inl e \<Rightarrow> Inl e
        | Inr ((start_y, stop_y), g') \<Rightarrow>
            (let start_x = offset;
                 stop_x = img_width st - start_x;
                 n = nat (img_width st);
                 left_chunk = getslice2 n (Some start_y) (Some stop_y) (Some start_x) None (inputarr st);
                 wrap_chunk = getslice2 n (Some start_y) (Some stop_y) None (Some start_x) (inputarr st)
             in case setslice2 n (Some start_y) (Some stop_y) None (Some stop_x) left_chunk (outputarr st) of
                  Inl e \<Rightarrow> Inl e
                | Inr out1 \<Rightarrow>
                    (case setslice2 n (Some start_y) (Some stop_y) (Some stop_x) None wrap_chunk out1 of
                       Inl e \<Rightarrow> Inl e
                     | Inr out2 \<Rightarrow> Inr (st\<lparr>outputarr := out2\<rparr>, g')))))"

definition glitch_right ::
  "int \<Rightarrow> 'p list list glitcher \<times> rng \<Rightarrow> error + ('p list list glitcher \<times> rng)" where
  "glitch_right offset s =
     (case s of (st, g) \<Rightarrow>
       (case select_band (img_height st) g of
          Inl e \<Rightarrow> Inl e
        | Inr ((start_y, stop_y), g') \<Rightarrow>
            (let stop_x = img_width st - offset;
                 start_x = offset;
                 n = nat (img_width st);
                 right_chunk = getslice2 n (Some start_y) (Some stop_y) None (Some stop_x) (inputarr st);
                 wrap_chunk = getslice2 n (Some start_y) (Some stop_y) (Some stop_x) None (inputarr st)
             in case setslice2 n (Some start_y) (Some stop_y) (Some start_x) None right_chunk (outputarr st) of
                  Inl e \<Rightarrow> Inl e
                | Inr out1 \<Rightarrow>
                    (case setslice2 n (Some start_y) (Some stop_y) None (Some start_x) wrap_chunk out1 of
                       Inl e \<Rightarrow> Inl e
                     | Inr out2 \<Rightarrow> Inr (st\<lparr>outputarr := out2\<rparr>, g')))))"

section \<open>The band-shift loop of \<^verbatim>\<open>glitch_image\<close>\<close>

text \<open>
  One pass of the loop body (lines 45-57): draw \<^verbatim>\<open>current_offset = randint(0, max_offset)\<close>,
  skip on 0, shift left on a negative offset, right otherwise. \<^verbatim>\<open>current_offset is 0\<close>
  is an identity test that CPython answers like \<^verbatim>\<open>== 0\<close> for small integers.
\<close>

definition glitch_step ::
  "int \<Rightarrow> 'p list list glitcher \<times> rng \<Rightarrow> error + ('p list list glitcher \<times> rng)" where
  "glitch_step max_offset s =
     (case s of (st, g) \<Rightarrow>
       (case randint 0 max_offset g of
          Inl e \<Rightarrow> Inl e
        | Inr (current_offset, g1) \<Rightarrow>
            if current_offset = 0 then Inr (st, g1)
            else if current_offset < 0 then glitch_left (- current_offset) (st, g1)
            else glitch_right current_offset (st, g1)))"

fun glitch_loop ::
  "nat \<Rightarrow> int \<Rightarrow> 'p list list glitcher \<times> rng \<Rightarrow> error + ('p list list glitcher \<times> rng)" where
  "glitch_loop 0 max_offset s = Inr s"
| "glitch_loop (Suc n) max_offset s =
     (case glitch_step max_offset s of
        Inl e \<Rightarrow> Inl e
      | Inr s' \<Rightarrow> glitch_loop n max_offset s')"

section \<open>Channel offset\<close>

text \<open>
  The body of the loop of \<^verbatim>\<open>color_offset\<close> (lines 185-191) at one enumerated element. The
  loop state is \<open>(offset_y, offset_x, outputarr)\<close>: both offsets are reassigned when
  their wrap test fires and stay so for the rest of the enumeration.
\<close>

definition color_step ::
  "'a list list glitcher \<Rightarrow> int \<Rightarrow> (int \<times> int) \<times> 'a \<Rightarrow> int \<times> int \<times> 'a list list
     \<Rightarrow> error + (int \<times> int \<times> 'a list list)" where
  "color_step st channel_index e s =
     (case e of ((i, j), x) \<Rightarrow>
       (case s of (offset_y, offset_x, out) \<Rightarrow>
         if pixel_tuple_len st = 0 then Inl ZeroModulo
         else if j mod pixel_tuple_len st \<noteq> 0 then Inr (offset_y, offset_x, out)
         else
           (let offset_y' = (if offset_y + i \<ge> img_height st then - i else offset_y);
                offset_x' = (if offset_x + j \<ge> img_width st * pixel_tuple_len st
                             then - j + channel_index else offset_x)
            in case setitem2 out (offset_y' + i) (offset_x' + j) x of
                 Inl err \<Rightarrow> Inl err
               | Inr out' \<Rightarrow> Inr (offset_y', offset_x', out'))))"

fun color_loop ::
  "'a list list glitcher \<Rightarrow> int \<Rightarrow> ((int \<times> int) \<times> 'a) list \<Rightarrow> int \<times> int \<times> 'a list list
     \<Rightarrow> error + (int \<times> int \<times> 'a list list)" where
  "color_loop st channel_index [] s = Inr s"
| "color_loop st channel_index (e # es) s =
     (case color_step st channel_index e s of
        Inl err \<Rightarrow> Inl err
      | Inr s' \<Rightarrow> color_loop st channel_index es s')"

definition color_offset ::
  "int \<Rightarrow> int \<Rightarrow> int \<Rightarrow> 'a list list glitcher \<Rightarrow> error + 'a list list glitcher" where
  "color_offset offset_x offset_y channel_index st =
     (let offset_x0 = (if offset_x \<noteq> 0 then offset_x * pixel_tuple_len st + channel_index
                       else channel_index)
      in case color_loop st channel_index (ndenumerate (inputarr st))
                (offset_y, offset_x0, outputarr st) of
           Inl err \<Rightarrow> Inl err
         | Inr (oy, ox, out) \<Rightarrow> Inr (st\<lparr>outputarr := out\<rparr>))"

text \<open>
  The shape of the flattened arrays at the call of \<^verbatim>\<open>color_offset\<close>: \<open>img_height\<close> rows of
  \<open>img_width * pixel_tuple_len\<close> samples, with at least one band.
\<close>

definition wf2 :: "'a list list glitcher \<Rightarrow> bool" where
  "wf2 st \<longleftrightarrow>
     0 \<le> img_width st \<and> 0 \<le> img_height st \<and> 0 < pixel_tuple_len st \<and>
     length (inputarr st) = nat (img_height st) \<and>
     length (outputarr st) = nat (img_height st) \<and>
     list_all (\<lambda>row. length row = nat (img_width st * pixel_tuple_len st)) (inputarr st) \<and>
     list_all (\<lambda>row. length row = nat (img_width st * pixel_tuple_len st)) (outputarr st)"

definition get_random_channel :: "'arr glitcher \<Rightarrow> rng \<Rightarrow> error + (int \<times> rng)" where
  "get_random_channel st g = randint 0 (pixel_tuple_len st - 1) g"

section \<open>\<^verbatim>\<open>glitch_image\<close>\<close>

text \<open>
  What the path leads to: nothing, a file Pillow cannot open, or a decoded image with
  its size, its number of bands, its mode and its pixel rows.
\<close>

record 'a image =
  size_w :: nat
  size_h :: nat
  nbands :: nat
  img_mode :: string
  pixel_rows :: "'a list list list"

datatype 'a source = Missing | Undecodable | Decoded "'a image"

text \<open>
  \<^verbatim>\<open>max_offset = int((glitch_amount ** 2 / 100) * img_width)\<close> is computed in floating
  point; \<open>max_offset_for\<close> is its exact reading (for \<^verbatim>\<open>glitch_amount = 10\<close> the two agree, since
  \<open>100 / 100\<close> is exactly 1). The loop and its theorems take the bound as a parameter,
  so nothing proved about them depends on the rounding.
\<close>

definition max_offset_for :: "int \<Rightarrow> int \<Rightarrow> int" where
  "max_offset_for glitch_amount w = (glitch_amount * glitch_amount * w) div 100"

text \<open>
  \<^verbatim>\<open>reshape(img_height, -1)\<close> joins the tuples of each row (and fails on an array
  without rows); \<^verbatim>\<open>np.reshape(outputarr, (img_height, img_width, pixel_tuple_len))\<close> cuts
  each row back into tuples.
\<close>

definition flatten_rows :: "'a list list list \<Rightarrow> 'a list list" where
  "flatten_rows arr = map concat arr"

definition unflatten_rows :: "nat \<Rightarrow> nat \<Rightarrow> 'a list list \<Rightarrow> 'a list list list" where
  "unflatten_rows w c arr = map (\<lambda>row. map (\<lambda>k. take c (drop (k * c) row)) [0..<w]) arr"

text \<open>
  Line 71, \<^verbatim>\<open>Image.fromarray(self.outputarr, img_mode)\<close>, on the array of three dimensions
  that line 68 has made: with the mode given, Pillow first compares the number of
  dimensions with the most the mode allows (two for the modes 1, L, I, P and F, three
  for RGB, four otherwise) and raises when there are more. So the call raises for an
  image of one of these single-band modes. What Pillow does after this test is outside
  the model: the array is returned as the image.
\<close>

definition fromarray :: "'a list list list \<Rightarrow> string \<Rightarrow> error + 'a list list list" where
  "fromarray arr mode =
     (let ndim = (3::nat);
          ndmax = (if mode \<in> set [''1'', ''L'', ''I'', ''P'', ''F''] then 2
                   else if mode = ''RGB'' then 3 else 4)
      in if ndim > ndmax then Inl TooManyDimensions else Inr arr)"

text \<open>
  Lines 26-38: the attributes of the opened image, and the two arrays made from its
  pixel data.
\<close>

definition initial_state :: "'a image \<Rightarrow> 'a list list list glitcher" where
  "initial_state im =
     \<lparr>img_width = int (size_w im), img_height = int (size_h im),
      pixel_tuple_len = int (nbands im),
      inputarr = pixel_rows im, outputarr = pixel_rows im\<rparr>"

definition glitch_image :: "'a source \<Rightarrow> int \<Rightarrow> rng \<Rightarrow> error + 'a list list list" where
  "glitch_image src glitch_amount g =
     (if \<not> (1 \<le> glitch_amount \<and> glitch_amount \<le> 10) then Inl AmountOutOfRange
      else case src of
        Missing \<Rightarrow> Inl NoImageAtPath
      | Undecodable \<Rightarrow> Inl FormatNotSupported
      | Decoded im \<Rightarrow>
          (let st = initial_state im
           in case glitch_loop (nat (glitch_amount * 2))
                     (max_offset_for glitch_amount (img_width st)) (st, g) of
                Inl e \<Rightarrow> Inl e
              | Inr (st1, g1) \<Rightarrow>
                  if img_height st1 = 0 then Inl ReshapeFailure
                  else
                    (let st2 = \<lparr>img_width = img_width st1, img_height = img_height st1,
                                pixel_tuple_len = pixel_tuple_len st1,
                                inputarr = flatten_rows (inputarr st1),
                                outputarr = flatten_rows (outputarr st1)\<rparr>
                     in case randint (- glitch_amount * 2) (glitch_amount * 2) g1 of
                          Inl e \<Rightarrow> Inl e
                        | Inr (ox, g2) \<Rightarrow>
                            (case randint (- glitch_amount * 2) (glitch_amount * 2) g2 of
                               Inl e \<Rightarrow> Inl e
                             | Inr (oy, g3) \<Rightarrow>
                                 (case get_random_channel st2 g3 of
                                    Inl e \<Rightarrow> Inl e
                                  | Inr (ch, g4) \<Rightarrow>
                                      (case color_offset ox oy ch st2 of
                                         Inl e \<Rightarrow> Inl e
                                       | Inr st3 \<Rightarrow>
                                           fromarray
                                             (unflatten_rows (nat (img_width st3))
                                                (nat (pixel_tuple_len st3))
                                                (outputarr st3))
                                             (img_mode im)))))))"

section \<open>The elements the channel loop acts on\<close>

text \<open>
  A name for the part of the enumeration that passes the test of line 185, used to
  state the lemmas about \<^verbatim>\<open>color_offset\<close>: in each row of an array with \<open>w\<close> tuples of
  \<open>p\<close> samples, the elements at the flat columns \<open>0, p, 2p, ...\<close>.
\<close>

definition first_slots :: "nat \<Rightarrow> nat \<Rightarrow> nat \<Rightarrow> 'a list \<Rightarrow> ((int \<times> int) \<times> 'a) list" where
  "first_slots w p i row = map (\<lambda>q. ((int i, int (q * p)), row ! (q * p))) [0..<w]"

section \<open>The destination as the specification words it\<close>

text \<open>
  The specification's destination of the sample read at \<open>(row, flatCol)\<close> (section 4.3):
  \<open>((row + offsetRow) mod height, (flatCol + flatOffsetCol) mod (width * channelsPerPixel))\<close>
  with \<open>flatOffsetCol = offsetCol * channelsPerPixel + channelIndex\<close>.
\<close>

definition wrapped_row :: "int \<Rightarrow> int \<Rightarrow> nat \<Rightarrow> nat" where
  "wrapped_row height offsetRow row = nat ((int row + offsetRow) mod height)"

definition wrapped_col :: "int \<Rightarrow> int \<Rightarrow> int \<Rightarrow> int \<Rightarrow> nat \<Rightarrow> nat" where
  "wrapped_col width channelsPerPixel channelIndex offsetCol flatCol =
     nat ((int flatCol + (offsetCol * channelsPerPixel + channelIndex))
          mod (width * channelsPerPixel))"

section \<open>The loop as the specification words it\<close>

text \<open>
  The specification's reading of one iteration (section 4.4, step 4): draw the offset
  in \<open>[0, maxOffset]\<close>, skip on 0, otherwise call the rightward shift. It has no
  leftward branch, and is compared below with the loop of the source.
\<close>

definition glitch_step_spec ::
  "int \<Rightarrow> 'p list list glitcher \<times> rng \<Rightarrow> error + ('p list list glitcher \<times> rng)" where
  "glitch_step_spec max_offset s =
     (case s of (st, g) \<Rightarrow>
       (case randint 0 max_offset g of
          Inl e \<Rightarrow> Inl e
        | Inr (offset, g1) \<Rightarrow>
            if offset = 0 then Inr (st, g1) else glitch_right offset (st, g1)))"

fun glitch_loop_spec ::
  "nat \<Rightarrow> int \<Rightarrow> 'p list list glitcher \<times> rng \<Rightarrow> error + ('p list list glitcher \<times> rng)" where
  "glitch_loop_spec 0 max_offset s = Inr s"
| "glitch_loop_spec (Suc n) max_offset s =
     (case glitch_step_spec max_offset s of
        Inl e \<Rightarrow> Inl e
      | Inr s' \<Rightarrow> glitch_loop_spec n max_offset s')"

section \<open>Example buffers\<close>

text \<open>
  Small inputs on which the theorems below are instantiated: the 4 x 4 single-band
  array of the docstrings of \<^verbatim>\<open>glitch_left\<close> and \<^verbatim>\<open>glitch_right\<close>, with the output a
  copy of the input as \<^verbatim>\<open>glitch_image\<close> sets it up.
\<close>

definition doc_rows :: "nat list list" where
  "doc_rows = [[0, 1, 2, 3], [4, 5, 6, 7], [8, 9, 10, 11], [12, 13, 14, 15]]"

definition doc_state :: "nat list list glitcher" where
  "doc_state = \<lparr>img_width = 4, img_height = 4, pixel_tuple_len = 1,
                 inputarr = doc_rows, outputarr = doc_rows\<rparr>"

text \<open>
  A 2 x 2 image of three bands, flattened (rows of six samples); a 2 x 2 image of one
  band; and a decoded 2 x 2 single-band image as \<^verbatim>\<open>glitch_image\<close> receives it.
\<close>

definition rgb_state :: "nat list list glitcher" where
  "rgb_state = \<lparr>img_width = 2, img_height = 2, pixel_tuple_len = 3,
                 inputarr = [[1, 2, 3, 4, 5, 6], [7, 8, 9, 10, 11, 12]],
                 outputarr = [[1, 2, 3, 4, 5, 6], [7, 8, 9, 10, 11, 12]]\<rparr>"

definition grey_state :: "nat list list glitcher" where
  "grey_state = \<lparr>img_width = 2, img_height = 2, pixel_tuple_len = 1,
                  inputarr = [[1, 2], [3, 4]], outputarr = [[1, 2], [3, 4]]\<rparr>"

definition grey_image :: "nat image" where
  "grey_image = \<lparr>size_w = 2, size_h = 2, nbands = 1, img_mode = ''L'',
                  pixel_rows = [[[1], [2]], [[3], [4]]]\<rparr>"

section \<open>The random source and band selection\<close>

lemma randint_range:
  "randint a b g = Inr (v, g') \<Longrightarrow> a \<le> v \<and> v \<le> b"
proof -
  assume h: "randint a b g = Inr (v, g')"
  then have ab: "a \<le> b" by (auto simp: randint_def split: if_splits)
  obtain d where v: "v = a + int (d mod nat (b - a + 1))"
    using h ab by (auto simp: randint_def split: prod.splits)
  have "d mod nat (b - a + 1) < nat (b - a + 1)" using ab by simp
  then show ?thesis using v ab by linarith
qed

lemma randint_onto:
  "a \<le> v \<Longrightarrow> v \<le> b \<Longrightarrow> randint a b (nat (v - a) # g) = Inr (v, g)"
  by (simp add: randint_def)

lemma randint_empty: "b < a \<Longrightarrow> randint a b g = Inl EmptyRange"
  by (simp add: randint_def)

lemma randint_total: "a \<le> b \<Longrightarrow> \<exists>v g'. randint a b g = Inr (v, g')"
  by (simp add: randint_def split: prod.splits)

lemma select_band_bounds:
  assumes "select_band h g = Inr ((start_y, stop_y), g')"
  shows "0 \<le> start_y \<and> start_y \<le> h \<and> start_y \<le> stop_y \<and> stop_y \<le> h
         \<and> stop_y - start_y \<le> h div 4 \<and> 4 \<le> h"
proof -
  from assms obtain g1 ch where
    r1: "randint 0 h g = Inr (start_y, g1)" and
    r2: "randint 1 (int_quarter h) g1 = Inr (ch, g')" and
    st: "stop_y = start_y + min ch (h - start_y)"
    by (auto simp: select_band_def split: sum.splits prod.splits)
  from randint_range [OF r1] have a: "0 \<le> start_y" "start_y \<le> h" by auto
  from randint_range [OF r2] have b: "1 \<le> ch" "ch \<le> int_quarter h" by auto
  from a have "0 \<le> h" by simp
  then have q: "int_quarter h = h div 4" by (simp add: int_quarter_def)
  from a b q st show ?thesis by auto
qed

lemma select_band_small:
  assumes "h \<le> 3"
  shows "select_band h g = Inl EmptyRange"
proof (cases "randint 0 h g")
  case (Inl e)
  then have "e = EmptyRange" by (auto simp: randint_def split: if_splits prod.splits)
  with Inl show ?thesis by (simp add: select_band_def)
next
  case (Inr p)
  obtain v g1 where p: "p = (v, g1)" by (cases p)
  from Inr p randint_range have "0 \<le> h" by fastforce
  with assms have "int_quarter h = 0" by (simp add: int_quarter_def)
  then have "randint 1 (int_quarter h) g1 = Inl EmptyRange" by (simp add: randint_def)
  with Inr p show ?thesis by (simp add: select_band_def)
qed

lemma select_band_total:
  assumes "4 \<le> h"
  shows "\<exists>b g'. select_band h g = Inr (b, g')"
proof -
  from assms obtain v g1 where r1: "randint 0 h g = Inr (v, g1)"
    using randint_total [of 0 h g] by auto
  from assms have "1 \<le> int_quarter h" by (simp add: int_quarter_def)
  then obtain c g2 where r2: "randint 1 (int_quarter h) g1 = Inr (c, g2)"
    using randint_total [of 1 "int_quarter h" g1] by auto
  from r1 r2 show ?thesis by (simp add: select_band_def)
qed

lemma slice_band:
  assumes "0 \<le> sy" "sy \<le> ey" "ey \<le> int (length arr)"
  shows "slice (Some sy) (Some ey) arr = take (nat ey - nat sy) (drop (nat sy) arr)"
proof -
  have "nat sy \<le> nat ey" "nat ey \<le> length arr" using assms by linarith+
  then show ?thesis using assms
    by (simp add: slice_def slice_len_def slice_start_def slice_stop_def clip_index_def)
qed

lemma setslice2_rows:
  fixes arr :: "'p list list"
  assumes "0 \<le> sy" "sy \<le> ey" "ey \<le> int (length arr)"
    and "length rows = nat ey - nat sy"
    and "\<forall>row \<in> set rows. length row = slice_len n xlo xhi"
  shows "\<exists>arr'. setslice2 n (Some sy) (Some ey) xlo xhi (slice_len n xlo xhi, rows) arr = Inr arr'
           \<and> length arr' = length arr
           \<and> (\<forall>r < length arr. arr' ! r =
                 (if nat sy \<le> r \<and> r < nat ey
                  then take (slice_start n xlo) (arr ! r) @ rows ! (r - nat sy)
                       @ drop (slice_start n xlo + slice_len n xlo xhi) (arr ! r)
                  else arr ! r))"
proof -
  define a where "a = nat sy"
  define b where "b = nat ey"
  define xa where "xa = slice_start n xlo"
  define tw where "tw = slice_len n xlo xhi"
  define f where "f = (\<lambda>(old :: 'p list) new. take xa old @ stretch tw new @ drop (xa + tw) old)"
  define arr' where "arr' = take a arr @ map2 f (take (b - a) (drop a arr)) rows @ drop (a + (b - a)) arr"
  have ab: "a \<le> b" "b \<le> length arr" unfolding a_def b_def using assms(1-3) by linarith+
  have ya: "slice_start (length arr) (Some sy) = a"
    using assms by (simp add: slice_start_def clip_index_def a_def)
  have th: "slice_len (length arr) (Some sy) (Some ey) = b - a"
    using assms by (simp add: slice_len_def slice_start_def slice_stop_def clip_index_def a_def b_def)
  have lr: "length rows = b - a" using assms by (simp add: a_def b_def)
  have st: "stretch (b - a) rows = rows" using lr by (simp add: stretch_def)
  have eq: "setslice2 n (Some sy) (Some ey) xlo xhi (tw, rows) arr = Inr arr'"
    unfolding setslice2_def Let_def ya th fst_conv snd_conv st arr'_def f_def xa_def tw_def
    using lr by simp
  have len: "length arr' = length arr"
    using ab lr by (simp add: arr'_def)
  have nth: "arr' ! r = (if a \<le> r \<and> r < b then take xa (arr ! r) @ rows ! (r - a) @ drop (xa + tw) (arr ! r) else arr ! r)"
    if r: "r < length arr" for r
  proof -
    consider (lo) "r < a" | (mid) "a \<le> r" "r < b" | (hi) "b \<le> r" by linarith
    then show ?thesis
    proof cases
      case lo
      then show ?thesis using ab r by (simp add: arr'_def nth_append)
    next
      case mid
      have "r - a < length rows" using mid lr by linarith
      then have rr: "rows ! (r - a) \<in> set rows" by simp
      then have "length (rows ! (r - a)) = tw" using assms(5) by (simp add: tw_def)
      then have s: "stretch tw (rows ! (r - a)) = rows ! (r - a)" by (simp add: stretch_def)
      have ra: "r - a < b - a" "a + (r - a) = r" using mid by linarith+
      have "arr' ! r = map2 f (take (b - a) (drop a arr)) rows ! (r - a)"
        using mid ra ab r lr by (simp add: arr'_def nth_append)
      also have "\<dots> = f (arr ! r) (rows ! (r - a))"
        using ra ab r lr by simp
      finally show ?thesis using mid s by (simp add: f_def)
    next
      case hi
      have "\<not> r < a" "\<not> r - a < b - a" "a + (b - a) + (r - a - (b - a)) = r"
        using hi ab by linarith+
      then show ?thesis using hi ab r lr by (simp add: arr'_def nth_append)
    qed
  qed
  show ?thesis using eq len nth unfolding a_def b_def xa_def tw_def by blast
qed

lemma length_slice: "length (slice lo hi xs) = slice_len (length xs) lo hi"
proof -
  have "clip_index (length xs) i \<le> length xs" for i
  proof (cases "i < 0")
    case True
    then have "nat (i + int (length xs)) \<le> length xs" by linarith
    with True show ?thesis by (simp add: clip_index_def)
  next
    case False
    then show ?thesis by (simp add: clip_index_def)
  qed
  then have "slice_stop (length xs) hi \<le> length xs"
    by (cases hi) (simp_all add: slice_stop_def)
  then show ?thesis by (simp add: slice_def slice_len_def)
qed

lemma copy_band:
  assumes b: "0 \<le> sy" "sy \<le> ey" "ey \<le> int (length arr)"
    and l: "length inp = length arr"
    and w: "list_all (\<lambda>row. length row = n) inp"
    and sh: "slice_len n slo shi = slice_len n tlo thi"
  shows "\<exists>arr'. setslice2 n (Some sy) (Some ey) tlo thi
                   (getslice2 n (Some sy) (Some ey) slo shi inp) arr = Inr arr'
           \<and> length arr' = length arr
           \<and> (\<forall>r < length arr. arr' ! r =
                 (if nat sy \<le> r \<and> r < nat ey
                  then take (slice_start n tlo) (arr ! r) @ slice slo shi (inp ! r)
                       @ drop (slice_start n tlo + slice_len n tlo thi) (arr ! r)
                  else arr ! r))"
proof -
  define rows where "rows = map (slice slo shi) (slice (Some sy) (Some ey) inp)"
  have band: "slice (Some sy) (Some ey) inp = take (nat ey - nat sy) (drop (nat sy) inp)"
    using b l by (simp add: slice_band)
  have lr: "length rows = nat ey - nat sy"
    using b l by (simp add: rows_def band)
  have rw: "\<forall>row \<in> set rows. length row = slice_len n tlo thi"
  proof
    fix row assume "row \<in> set rows"
    then obtain src where s: "src \<in> set inp" and r: "row = slice slo shi src"
      by (auto simp: rows_def band dest: in_set_takeD in_set_dropD)
    from s w have "length src = n" by (simp add: list_all_iff)
    with r sh show "length row = slice_len n tlo thi" by (simp add: length_slice)
  qed
  have nth: "rows ! (r - nat sy) = slice slo shi (inp ! r)"
    if "nat sy \<le> r" "r < nat ey" for r
    using that b l by (simp add: rows_def band)
  have g: "getslice2 n (Some sy) (Some ey) slo shi inp = (slice_len n tlo thi, rows)"
    by (simp add: getslice2_def rows_def sh)
  from setslice2_rows [OF b lr rw] obtain arr' where
    e: "setslice2 n (Some sy) (Some ey) tlo thi (slice_len n tlo thi, rows) arr = Inr arr'"
    and le: "length arr' = length arr"
    and n: "\<forall>r < length arr. arr' ! r =
                 (if nat sy \<le> r \<and> r < nat ey
                  then take (slice_start n tlo) (arr ! r) @ rows ! (r - nat sy)
                       @ drop (slice_start n tlo + slice_len n tlo thi) (arr ! r)
                  else arr ! r)"
    by blast
  from n nth have "\<forall>r < length arr. arr' ! r =
                 (if nat sy \<le> r \<and> r < nat ey
                  then take (slice_start n tlo) (arr ! r) @ slice slo shi (inp ! r)
                       @ drop (slice_start n tlo + slice_len n tlo thi) (arr ! r)
                  else arr ! r)"
    by simp
  with e le g show ?thesis by simp
qed

lemma slice_values:
  assumes "0 \<le> k" "k \<le> int n"
  shows "slice_start n None = 0"
    and "slice_start n (Some k) = nat k"
    and "slice_start n (Some (int n - k)) = n - nat k"
    and "slice_len n (Some k) None = n - nat k"
    and "slice_len n None (Some k) = nat k"
    and "slice_len n None (Some (int n - k)) = n - nat k"
    and "slice_len n (Some (int n - k)) None = nat k"
proof -
  have "nat (int n - k) = n - nat k" "nat k \<le> n" using assms by linarith+
  then show "slice_start n None = 0"
    and "slice_start n (Some k) = nat k"
    and "slice_start n (Some (int n - k)) = n - nat k"
    and "slice_len n (Some k) None = n - nat k"
    and "slice_len n None (Some k) = nat k"
    and "slice_len n None (Some (int n - k)) = n - nat k"
    and "slice_len n (Some (int n - k)) None = nat k"
    using assms
    by (auto simp: slice_start_def slice_stop_def slice_len_def clip_index_def min_def)
qed

lemma slice_row_values:
  assumes "0 \<le> k" "k \<le> int n" "length row = n"
  shows "slice None (Some k) row = take (nat k) row"
    and "slice (Some k) None row = drop (nat k) row"
    and "slice None (Some (int n - k)) row = take (n - nat k) row"
    and "slice (Some (int n - k)) None row = drop (n - nat k) row"
proof -
  have "nat (int n - k) = n - nat k" "nat k \<le> n" using assms by linarith+
  then show "slice None (Some k) row = take (nat k) row"
    and "slice (Some k) None row = drop (nat k) row"
    and "slice None (Some (int n - k)) row = take (n - nat k) row"
    and "slice (Some (int n - k)) None row = drop (n - nat k) row"
    using assms
    by (auto simp: slice_def slice_start_def slice_stop_def slice_len_def clip_index_def min_def)
qed

lemma glitch_right_rows:
  assumes wf: "wf3 st"
    and off: "0 \<le> offset" "offset \<le> img_width st"
    and sb: "select_band (img_height st) g = Inr ((start_y, stop_y), g')"
  shows "\<exists>out. glitch_right offset (st, g) = Inr (st\<lparr>outputarr := out\<rparr>, g')
           \<and> length out = length (outputarr st)
           \<and> (\<forall>r < length out. out ! r =
                 (if nat start_y \<le> r \<and> r < nat stop_y
                  then drop (nat (img_width st - offset)) (inputarr st ! r)
                       @ take (nat (img_width st - offset)) (inputarr st ! r)
                  else outputarr st ! r))"
proof -
  define n where "n = nat (img_width st)"
  define k where "k = nat offset"
  have nW: "img_width st = int n" using wf by (simp add: wf3_def n_def)
  have kn: "k \<le> n" using off by (simp add: k_def n_def)
  have lin: "length (inputarr st) = nat (img_height st)"
    and lout: "length (outputarr st) = nat (img_height st)"
    and win: "list_all (\<lambda>row. length row = n) (inputarr st)"
    and wout: "list_all (\<lambda>row. length row = n) (outputarr st)"
    and h0: "0 \<le> img_height st"
    using wf by (simp_all add: wf3_def n_def)
  from select_band_bounds [OF sb] have
    b: "0 \<le> start_y" "start_y \<le> stop_y" "stop_y \<le> int (length (outputarr st))"
    using lout by auto
  have o2: "offset \<le> int n" using off nW by simp
  have sh1: "slice_len n None (Some (img_width st - offset)) = slice_len n (Some offset) None"
    unfolding nW using slice_values [OF off(1) o2] by simp
  from copy_band [OF b _ win sh1] lin lout obtain out1 where
    e1: "setslice2 n (Some start_y) (Some stop_y) (Some offset) None
           (getslice2 n (Some start_y) (Some stop_y) None (Some (img_width st - offset)) (inputarr st))
           (outputarr st) = Inr out1"
    and l1: "length out1 = length (outputarr st)"
    and n1: "\<forall>r < length (outputarr st). out1 ! r =
                 (if nat start_y \<le> r \<and> r < nat stop_y
                  then take (slice_start n (Some offset)) (outputarr st ! r)
                       @ slice None (Some (img_width st - offset)) (inputarr st ! r)
                       @ drop (slice_start n (Some offset) + slice_len n (Some offset) None) (outputarr st ! r)
                  else outputarr st ! r)"
    by auto
  have sh2: "slice_len n (Some (img_width st - offset)) None = slice_len n None (Some offset)"
    unfolding nW using slice_values [OF off(1) o2] by simp
  have b1: "stop_y \<le> int (length out1)" using b l1 by simp
  from copy_band [OF b(1,2) b1 _ win sh2] lin lout l1 obtain out2 where
    e2: "setslice2 n (Some start_y) (Some stop_y) None (Some offset)
           (getslice2 n (Some start_y) (Some stop_y) (Some (img_width st - offset)) None (inputarr st))
           out1 = Inr out2"
    and l2: "length out2 = length out1"
    and n2: "\<forall>r < length out1. out2 ! r =
                 (if nat start_y \<le> r \<and> r < nat stop_y
                  then take (slice_start n None) (out1 ! r)
                       @ slice (Some (img_width st - offset)) None (inputarr st ! r)
                       @ drop (slice_start n None + slice_len n None (Some offset)) (out1 ! r)
                  else out1 ! r)"
    by auto
  have eq: "glitch_right offset (st, g) = Inr (st\<lparr>outputarr := out2\<rparr>, g')"
    using sb e1 e2 by (simp add: glitch_right_def Let_def n_def)
  have rows: "out2 ! r =
                 (if nat start_y \<le> r \<and> r < nat stop_y
                  then drop (nat (img_width st - offset)) (inputarr st ! r)
                       @ take (nat (img_width st - offset)) (inputarr st ! r)
                  else outputarr st ! r)" if r: "r < length out2" for r
  proof (cases "nat start_y \<le> r \<and> r < nat stop_y")
    case False
    have "out2 ! r = out1 ! r" using False r l2 n2 [rule_format, of r] by auto
    moreover have "out1 ! r = outputarr st ! r"
      using False r l1 l2 n1 [rule_format, of r] by auto
    ultimately show ?thesis using False by auto
  next
    case True
    have li: "length (inputarr st ! r) = n"
      using win r l1 l2 lin lout by (simp add: list_all_length)
    have lo: "length (outputarr st ! r) = n"
      using wout r l1 l2 by (simp add: list_all_length)
    have nk: "nat (img_width st - offset) = n - k"
      using off nW by (simp add: k_def)
    have r1: "out1 ! r = take k (outputarr st ! r) @ take (n - k) (inputarr st ! r)"
      using True r l1 l2 n1 [rule_format, of r] lo li kn
        slice_values [OF off(1) o2] slice_row_values [OF off(1) o2 li]
      by (simp add: nW k_def)
    have r2: "out2 ! r = drop (n - k) (inputarr st ! r) @ drop k (out1 ! r)"
      using True r l1 l2 n2 [rule_format, of r]
        slice_values [OF off(1) o2] slice_row_values [OF off(1) o2 li]
      by (simp add: nW k_def)
    show ?thesis using True r1 r2 lo kn by (simp add: nk)
  qed
  show ?thesis using eq l1 l2 rows by auto
qed

lemma glitch_left_rows:
  assumes wf: "wf3 st"
    and off: "0 \<le> offset" "offset \<le> img_width st"
    and sb: "select_band (img_height st) g = Inr ((start_y, stop_y), g')"
  shows "\<exists>out. glitch_left offset (st, g) = Inr (st\<lparr>outputarr := out\<rparr>, g')
           \<and> length out = length (outputarr st)
           \<and> (\<forall>r < length out. out ! r =
                 (if nat start_y \<le> r \<and> r < nat stop_y
                  then drop (nat offset) (inputarr st ! r) @ take (nat offset) (inputarr st ! r)
                  else outputarr st ! r))"
proof -
  define n where "n = nat (img_width st)"
  define k where "k = nat offset"
  have nW: "img_width st = int n" using wf by (simp add: wf3_def n_def)
  have kn: "k \<le> n" using off by (simp add: k_def n_def)
  have lin: "length (inputarr st) = nat (img_height st)"
    and lout: "length (outputarr st) = nat (img_height st)"
    and win: "list_all (\<lambda>row. length row = n) (inputarr st)"
    and wout: "list_all (\<lambda>row. length row = n) (outputarr st)"
    using wf by (simp_all add: wf3_def n_def)
  from select_band_bounds [OF sb] have
    b: "0 \<le> start_y" "start_y \<le> stop_y" "stop_y \<le> int (length (outputarr st))"
    using lout by auto
  have o2: "offset \<le> int n" using off nW by simp
  have sh1: "slice_len n (Some offset) None = slice_len n None (Some (img_width st - offset))"
    unfolding nW using slice_values [OF off(1) o2] by simp
  from copy_band [OF b _ win sh1] lin lout obtain out1 where
    e1: "setslice2 n (Some start_y) (Some stop_y) None (Some (img_width st - offset))
           (getslice2 n (Some start_y) (Some stop_y) (Some offset) None (inputarr st))
           (outputarr st) = Inr out1"
    and l1: "length out1 = length (outputarr st)"
    and n1: "\<forall>r < length (outputarr st). out1 ! r =
                 (if nat start_y \<le> r \<and> r < nat stop_y
                  then take (slice_start n None) (outputarr st ! r)
                       @ slice (Some offset) None (inputarr st ! r)
                       @ drop (slice_start n None + slice_len n None (Some (img_width st - offset)))
                           (outputarr st ! r)
                  else outputarr st ! r)"
    by auto
  have sh2: "slice_len n None (Some offset) = slice_len n (Some (img_width st - offset)) None"
    unfolding nW using slice_values [OF off(1) o2] by simp
  have b1: "stop_y \<le> int (length out1)" using b l1 by simp
  from copy_band [OF b(1,2) b1 _ win sh2] lin lout l1 obtain out2 where
    e2: "setslice2 n (Some start_y) (Some stop_y) (Some (img_width st - offset)) None
           (getslice2 n (Some start_y) (Some stop_y) None (Some offset) (inputarr st))
           out1 = Inr out2"
    and l2: "length out2 = length out1"
    and n2: "\<forall>r < length out1. out2 ! r =
                 (if nat start_y \<le> r \<and> r < nat stop_y
                  then take (slice_start n (Some (img_width st - offset))) (out1 ! r)
                       @ slice None (Some offset) (inputarr st ! r)
                       @ drop (slice_start n (Some (img_width st - offset))
                               + slice_len n (Some (img_width st - offset)) None) (out1 ! r)
                  else out1 ! r)"
    by auto
  have eq: "glitch_left offset (st, g) = Inr (st\<lparr>outputarr := out2\<rparr>, g')"
    using sb e1 e2 by (simp add: glitch_left_def Let_def n_def)
  have rows: "out2 ! r =
                 (if nat start_y \<le> r \<and> r < nat stop_y
                  then drop (nat offset) (inputarr st ! r) @ take (nat offset) (inputarr st ! r)
                  else outputarr st ! r)" if r: "r < length out2" for r
  proof (cases "nat start_y \<le> r \<and> r < nat stop_y")
    case False
    have "out2 ! r = out1 ! r" using False r l2 n2 [rule_format, of r] by auto
    moreover have "out1 ! r = outputarr st ! r"
      using False r l1 l2 n1 [rule_format, of r] by auto
    ultimately show ?thesis using False by auto
  next
    case True
    have li: "length (inputarr st ! r) = n"
      using win r l1 l2 lin lout by (simp add: list_all_length)
    have lo: "length (outputarr st ! r) = n"
      using wout r l1 l2 by (simp add: list_all_length)
    have r1: "out1 ! r = drop k (inputarr st ! r) @ drop (n - k) (outputarr st ! r)"
      using True r l1 l2 n1 [rule_format, of r] lo li kn
        slice_values [OF off(1) o2] slice_row_values [OF off(1) o2 li]
      by (simp add: nW k_def)
    have r2: "out2 ! r = take (n - k) (out1 ! r) @ take k (inputarr st ! r) @ drop n (out1 ! r)"
      using True r l1 l2 n2 [rule_format, of r] kn
        slice_values [OF off(1) o2] slice_row_values [OF off(1) o2 li]
      by (simp add: nW k_def)
    have l1r: "length (out1 ! r) = n" using r1 li lo kn by simp
    show ?thesis using True r1 r2 li lo kn l1r by (simp add: k_def)
  qed
  show ?thesis using eq l1 l2 rows by auto
qed

section \<open>Band shifts move whole tuples inside the band only\<close>

text \<open>
  Claim C4. On a well-formed buffer, for an offset with \<open>1 \<le> offset < width\<close> and the
  band \<open>[start_y, stop_y)\<close> that the two draws select, \<^verbatim>\<open>glitch_right\<close> returns, and in
  every row \<open>r\<close> of the band the output has \<open>out[r][offset:] = in[r][:width - offset]\<close> and
  \<open>out[r][:offset] = in[r][width - offset:]\<close>; \<^verbatim>\<open>glitch_left\<close> returns, and in every row of
  the band \<open>out[r][:width - offset] = in[r][offset:]\<close> and
  \<open>out[r][width - offset:] = in[r][:offset]\<close>. The elements moved are the pixel tuples of
  the 3D view, whatever their type. Every row outside the band is the output row as it
  was before the call.
\<close>

theorem band_shift_rows:
  assumes wf: "wf3 st"
    and off: "1 \<le> offset" "offset < img_width st"
    and sb: "select_band (img_height st) g = Inr ((start_y, stop_y), g')"
  shows "(\<exists>out. glitch_right offset (st, g) = Inr (st\<lparr>outputarr := out\<rparr>, g')
            \<and> length out = length (outputarr st)
            \<and> (\<forall>r < length out.
                  if start_y \<le> int r \<and> int r < stop_y
                  then drop (nat offset) (out ! r)
                         = take (nat (img_width st - offset)) (inputarr st ! r)
                       \<and> take (nat offset) (out ! r)
                         = drop (nat (img_width st - offset)) (inputarr st ! r)
                  else out ! r = outputarr st ! r))
       \<and> (\<exists>out. glitch_left offset (st, g) = Inr (st\<lparr>outputarr := out\<rparr>, g')
            \<and> length out = length (outputarr st)
            \<and> (\<forall>r < length out.
                  if start_y \<le> int r \<and> int r < stop_y
                  then take (nat (img_width st - offset)) (out ! r)
                         = drop (nat offset) (inputarr st ! r)
                       \<and> drop (nat (img_width st - offset)) (out ! r)
                         = take (nat offset) (inputarr st ! r)
                  else out ! r = outputarr st ! r))"
proof -
  define n where "n = nat (img_width st)"
  define k where "k = nat offset"
  have o: "0 \<le> offset" "offset \<le> img_width st" using off by simp_all
  have kn: "k \<le> n" "nat (img_width st - offset) = n - k"
    using off by (simp_all add: k_def n_def)
  have s0: "0 \<le> start_y" using select_band_bounds [OF sb] by simp
  have band: "(start_y \<le> int r \<and> int r < stop_y) = (nat start_y \<le> r \<and> r < nat stop_y)" for r
    using s0 by linarith
  have lin: "length (inputarr st) = length (outputarr st)"
    and win: "list_all (\<lambda>row. length row = n) (inputarr st)"
    using wf by (simp_all add: wf3_def n_def)
  have li: "length (inputarr st ! r) = n" if "r < length (outputarr st)" for r
    using that lin win by (simp add: list_all_length)
  from glitch_right_rows [OF wf o sb] obtain outr where
    er: "glitch_right offset (st, g) = Inr (st\<lparr>outputarr := outr\<rparr>, g')"
    and lr: "length outr = length (outputarr st)"
    and nr: "\<forall>r < length outr. outr ! r =
                 (if nat start_y \<le> r \<and> r < nat stop_y
                  then drop (n - k) (inputarr st ! r) @ take (n - k) (inputarr st ! r)
                  else outputarr st ! r)"
    unfolding kn by blast
  from glitch_left_rows [OF wf o sb] obtain outl where
    el: "glitch_left offset (st, g) = Inr (st\<lparr>outputarr := outl\<rparr>, g')"
    and ll: "length outl = length (outputarr st)"
    and nl: "\<forall>r < length outl. outl ! r =
                 (if nat start_y \<le> r \<and> r < nat stop_y
                  then drop k (inputarr st ! r) @ take k (inputarr st ! r)
                  else outputarr st ! r)"
    unfolding k_def by blast
  have right: "if start_y \<le> int r \<and> int r < stop_y
               then drop k (outr ! r) = take (n - k) (inputarr st ! r)
                    \<and> take k (outr ! r) = drop (n - k) (inputarr st ! r)
               else outr ! r = outputarr st ! r" if r: "r < length outr" for r
  proof (cases "nat start_y \<le> r \<and> r < nat stop_y")
    case True
    have "outr ! r = drop (n - k) (inputarr st ! r) @ take (n - k) (inputarr st ! r)"
      using True nr r by simp
    moreover have "length (drop (n - k) (inputarr st ! r)) = k"
      using li [of r] r lr kn by simp
    ultimately show ?thesis using True band [of r] by simp
  next
    case False
    then have "outr ! r = outputarr st ! r" using nr r by auto
    then show ?thesis using False band [of r] by auto
  qed
  have left: "if start_y \<le> int r \<and> int r < stop_y
              then take (n - k) (outl ! r) = drop k (inputarr st ! r)
                   \<and> drop (n - k) (outl ! r) = take k (inputarr st ! r)
              else outl ! r = outputarr st ! r" if r: "r < length outl" for r
  proof (cases "nat start_y \<le> r \<and> r < nat stop_y")
    case True
    have "outl ! r = drop k (inputarr st ! r) @ take k (inputarr st ! r)"
      using True nl r by simp
    moreover have "length (drop k (inputarr st ! r)) = n - k"
      using li [of r] r ll by simp
    ultimately show ?thesis using True band [of r] by simp
  next
    case False
    then have "outl ! r = outputarr st ! r" using nl r by auto
    then show ?thesis using False band [of r] by auto
  qed
  show ?thesis
    unfolding kn k_def [symmetric]
    using er lr right el ll left by blast
qed

text \<open>The docstring example: first row of the 4 x 4 array, offset 1.\<close>

theorem band_shift_rows_witness:
  "wf3 doc_state \<and> (1::int) \<le> 1 \<and> 1 < img_width doc_state
   \<and> select_band (img_height doc_state) [0, 0] = Inr ((0, 1), [])
   \<and> (\<exists>out. glitch_right 1 (doc_state, [0, 0]) = Inr (doc_state\<lparr>outputarr := out\<rparr>, [])
         \<and> length out = length (outputarr doc_state)
         \<and> (\<forall>r < length out.
               if 0 \<le> int r \<and> int r < 1
               then drop (nat 1) (out ! r) = take (nat (img_width doc_state - 1)) (inputarr doc_state ! r)
                    \<and> take (nat 1) (out ! r) = drop (nat (img_width doc_state - 1)) (inputarr doc_state ! r)
               else out ! r = outputarr doc_state ! r))
   \<and> (\<exists>out. glitch_left 1 (doc_state, [0, 0]) = Inr (doc_state\<lparr>outputarr := out\<rparr>, [])
         \<and> length out = length (outputarr doc_state)
         \<and> (\<forall>r < length out.
               if 0 \<le> int r \<and> int r < 1
               then take (nat (img_width doc_state - 1)) (out ! r) = drop (nat 1) (inputarr doc_state ! r)
                    \<and> drop (nat (img_width doc_state - 1)) (out ! r) = take (nat 1) (inputarr doc_state ! r)
               else out ! r = outputarr doc_state ! r))"
proof -
  have h1: "wf3 doc_state" by (simp add: wf3_def doc_state_def doc_rows_def)
  have h2: "(1::int) \<le> 1" by simp
  have h3: "1 < img_width doc_state" by (simp add: doc_state_def)
  have h4: "select_band (img_height doc_state) [0, 0] = Inr ((0, 1), [])"
    by (simp add: select_band_def randint_def int_quarter_def doc_state_def)
  show ?thesis using h1 h3 h4 band_shift_rows [OF h1 h2 h3 h4] by simp
qed

section \<open>What a call leaves unchanged\<close>

lemma glitch_right_frame:
  assumes "glitch_right offset (st, g) = Inr (st', g')"
  shows "inputarr st' = inputarr st \<and> img_width st' = img_width st
         \<and> img_height st' = img_height st \<and> pixel_tuple_len st' = pixel_tuple_len st"
  using assms
  by (auto simp: glitch_right_def Let_def split: sum.splits prod.splits)

lemma glitch_left_frame:
  assumes "glitch_left offset (st, g) = Inr (st', g')"
  shows "inputarr st' = inputarr st \<and> img_width st' = img_width st
         \<and> img_height st' = img_height st \<and> pixel_tuple_len st' = pixel_tuple_len st"
  using assms
  by (auto simp: glitch_left_def Let_def split: sum.splits prod.splits)

lemma glitch_step_frame:
  assumes "glitch_step mo (st, g) = Inr (st', g')"
  shows "inputarr st' = inputarr st \<and> img_width st' = img_width st
         \<and> img_height st' = img_height st \<and> pixel_tuple_len st' = pixel_tuple_len st"
proof -
  from assms obtain off g1 where r: "randint 0 mo g = Inr (off, g1)"
    by (auto simp: glitch_step_def split: sum.splits)
  show ?thesis
  proof (cases "off = 0")
    case True
    with assms r show ?thesis by (simp add: glitch_step_def)
  next
    case False
    show ?thesis
    proof (cases "off < 0")
      case True
      with assms r False have "glitch_left (- off) (st, g1) = Inr (st', g')"
        by (simp add: glitch_step_def)
      then show ?thesis by (rule glitch_left_frame)
    next
      case nn: False
      with assms r False have "glitch_right off (st, g1) = Inr (st', g')"
        by (simp add: glitch_step_def)
      then show ?thesis by (rule glitch_right_frame)
    qed
  qed
qed

lemma glitch_loop_frame:
  "glitch_loop n mo (st, g) = Inr (st', g') \<Longrightarrow>
     inputarr st' = inputarr st \<and> img_width st' = img_width st
     \<and> img_height st' = img_height st \<and> pixel_tuple_len st' = pixel_tuple_len st"
proof (induction n arbitrary: st g)
  case 0
  then show ?case by simp
next
  case (Suc n)
  from Suc.prems obtain st1 g1 where
    s: "glitch_step mo (st, g) = Inr (st1, g1)" and
    l: "glitch_loop n mo (st1, g1) = Inr (st', g')"
    by (auto split: sum.splits)
  from glitch_step_frame [OF s] Suc.IH [OF l] show ?case by simp
qed

lemma glitch_loop_add:
  "glitch_loop (k + m) mo s =
     (case glitch_loop k mo s of Inl e \<Rightarrow> Inl e | Inr s' \<Rightarrow> glitch_loop m mo s')"
  by (induction k arbitrary: s) (auto split: sum.splits)

lemma color_offset_frame:
  assumes "color_offset ox oy c st = Inr st'"
  shows "inputarr st' = inputarr st"
  using assms
  by (auto simp: color_offset_def Let_def split: sum.splits prod.splits)

lemma drop_take_rotate:
  assumes "k \<le> length xs"
  shows "drop k xs @ take k xs = rotate k xs"
proof (cases "k = length xs")
  case True
  then show ?thesis by simp
next
  case False
  with assms have "k < length xs" by simp
  then have "k mod length xs = k" by simp
  then show ?thesis by (simp add: rotate_drop_take)
qed

lemma glitch_step_rows:
  assumes wf: "wf3 st"
    and mo: "mo \<le> img_width st"
    and s: "glitch_step mo (st, g) = Inr (st', g')"
  shows "wf3 st' \<and> inputarr st' = inputarr st
         \<and> img_width st' = img_width st
         \<and> length (outputarr st') = length (outputarr st)
         \<and> (\<forall>r < length (outputarr st).
               outputarr st' ! r = outputarr st ! r
               \<or> (\<exists>k. outputarr st' ! r = rotate k (inputarr st ! r)))"
proof -
  from s obtain off g1 where r: "randint 0 mo g = Inr (off, g1)"
    by (auto simp: glitch_step_def split: sum.splits)
  from randint_range [OF r] mo have o: "0 \<le> off" "off \<le> img_width st" by simp_all
  show ?thesis
  proof (cases "off = 0")
    case True
    with s r have "st' = st" by (simp add: glitch_step_def)
    with wf show ?thesis by simp
  next
    case False
    with s r o have gr: "glitch_right off (st, g1) = Inr (st', g')"
      by (simp add: glitch_step_def)
    then obtain sy ey g2 where sb: "select_band (img_height st) g1 = Inr ((sy, ey), g2)"
      by (auto simp: glitch_right_def split: sum.splits)
    from glitch_right_rows [OF wf o sb] gr obtain out where
      st': "st' = st\<lparr>outputarr := out\<rparr>"
      and l: "length out = length (outputarr st)"
      and n: "\<forall>r < length out. out ! r =
                 (if nat sy \<le> r \<and> r < nat ey
                  then drop (nat (img_width st - off)) (inputarr st ! r)
                       @ take (nat (img_width st - off)) (inputarr st ! r)
                  else outputarr st ! r)"
      by auto
    have lin: "length (inputarr st) = length (outputarr st)"
      and win: "list_all (\<lambda>row. length row = nat (img_width st)) (inputarr st)"
      and wout: "list_all (\<lambda>row. length row = nat (img_width st)) (outputarr st)"
      using wf by (simp_all add: wf3_def)
    have row: "(out ! r = outputarr st ! r \<or> (\<exists>k. out ! r = rotate k (inputarr st ! r)))
               \<and> length (out ! r) = nat (img_width st)"
      if r: "r < length (outputarr st)" for r
    proof -
      have li: "length (inputarr st ! r) = nat (img_width st)"
        using r lin win by (simp add: list_all_length)
      have lo: "length (outputarr st ! r) = nat (img_width st)"
        using r wout by (simp add: list_all_length)
      have kk: "nat (img_width st - off) \<le> length (inputarr st ! r)"
        using li o by simp
      show ?thesis
      proof (cases "nat sy \<le> r \<and> r < nat ey")
        case True
        then have "out ! r = rotate (nat (img_width st - off)) (inputarr st ! r)"
          using n r l drop_take_rotate [OF kk] by simp
        then show ?thesis using li by auto
      next
        case False
        then have "out ! r = outputarr st ! r" using n r l by auto
        then show ?thesis using lo by simp
      qed
    qed
    have "list_all (\<lambda>row. length row = nat (img_width st)) out"
      using row l by (simp add: list_all_length)
    then have "wf3 st'" using wf l by (simp add: st' wf3_def)
    then show ?thesis using st' l row by simp
  qed
qed

lemma glitch_loop_rows:
  "wf3 st \<Longrightarrow> mo \<le> img_width st \<Longrightarrow> glitch_loop n mo (st, g) = Inr (st', g') \<Longrightarrow>
     wf3 st' \<and> length (outputarr st') = length (outputarr st)
     \<and> (\<forall>r < length (outputarr st).
           outputarr st' ! r = outputarr st ! r
           \<or> (\<exists>k. outputarr st' ! r = rotate k (inputarr st ! r)))"
proof (induction n arbitrary: st g)
  case 0
  then show ?case by simp
next
  case (Suc n)
  from Suc.prems(3) obtain st1 g1 where
    s: "glitch_step mo (st, g) = Inr (st1, g1)" and
    l: "glitch_loop n mo (st1, g1) = Inr (st', g')"
    by (auto split: sum.splits)
  from glitch_step_rows [OF Suc.prems(1,2) s] have
    w1: "wf3 st1" and i1: "inputarr st1 = inputarr st" and m1: "mo \<le> img_width st1"
    and l1: "length (outputarr st1) = length (outputarr st)"
    and r1: "\<forall>r < length (outputarr st).
               outputarr st1 ! r = outputarr st ! r
               \<or> (\<exists>k. outputarr st1 ! r = rotate k (inputarr st ! r))"
    using Suc.prems(2) by simp_all
  from Suc.IH [OF w1 m1 l] have
    w2: "wf3 st'" and l2: "length (outputarr st') = length (outputarr st1)"
    and r2: "\<forall>r < length (outputarr st1).
               outputarr st' ! r = outputarr st1 ! r
               \<or> (\<exists>k. outputarr st' ! r = rotate k (inputarr st1 ! r))"
    by simp_all
  have "outputarr st' ! r = outputarr st ! r
        \<or> (\<exists>k. outputarr st' ! r = rotate k (inputarr st ! r))"
    if "r < length (outputarr st)" for r
    using r1 [rule_format, OF that] r2 [rule_format, of r] that l1 i1 by auto
  with w2 l1 l2 show ?case by simp
qed

text \<open>
  Claim C7. The source buffer is never written once the operation has begun: whenever
  \<^verbatim>\<open>glitch_right\<close>, \<^verbatim>\<open>glitch_left\<close>, the whole band-shift loop or \<^verbatim>\<open>color_offset\<close> returns, the
  state it returns holds the \<^verbatim>\<open>inputarr\<close> it was given; only \<^verbatim>\<open>outputarr\<close> is assigned. So
  every band shift reads the original pixel data and not what earlier shifts wrote:
  after any number of iterations on a well-formed buffer (with the offset bound at most
  the width, as \<^verbatim>\<open>glitch_image\<close> computes it), every output row is either the output row
  from before the loop or a rotation of the source row from before the loop.
\<close>

theorem source_never_mutated:
  "(glitch_right offset (st, g) = Inr (st', g') \<longrightarrow> inputarr st' = inputarr st)
   \<and> (glitch_left offset (st, g) = Inr (st', g') \<longrightarrow> inputarr st' = inputarr st)
   \<and> (glitch_loop n max_offset (st, g) = Inr (st', g') \<longrightarrow> inputarr st' = inputarr st)
   \<and> (color_offset offset_x offset_y channel_index st2 = Inr st2'
        \<longrightarrow> inputarr st2' = inputarr st2)
   \<and> (wf3 st \<and> max_offset \<le> img_width st \<and> glitch_loop n max_offset (st, g) = Inr (st', g')
        \<longrightarrow> (\<forall>r < length (outputarr st).
               outputarr st' ! r = outputarr st ! r
               \<or> (\<exists>k. outputarr st' ! r = rotate k (inputarr st ! r))))"
proof (intro conjI impI)
  assume "glitch_right offset (st, g) = Inr (st', g')"
  then show "inputarr st' = inputarr st" by (simp add: glitch_right_frame)
next
  assume "glitch_left offset (st, g) = Inr (st', g')"
  then show "inputarr st' = inputarr st" by (simp add: glitch_left_frame)
next
  assume "glitch_loop n max_offset (st, g) = Inr (st', g')"
  then show "inputarr st' = inputarr st" by (simp add: glitch_loop_frame)
next
  assume "color_offset offset_x offset_y channel_index st2 = Inr st2'"
  then show "inputarr st2' = inputarr st2" by (rule color_offset_frame)
next
  assume a: "wf3 st \<and> max_offset \<le> img_width st
             \<and> glitch_loop n max_offset (st, g) = Inr (st', g')"
  then have "wf3 st" "max_offset \<le> img_width st"
    "glitch_loop n max_offset (st, g) = Inr (st', g')" by simp_all
  from glitch_loop_rows [OF this]
  show "\<forall>r < length (outputarr st).
          outputarr st' ! r = outputarr st ! r
          \<or> (\<exists>k. outputarr st' ! r = rotate k (inputarr st ! r))"
    by simp
qed

text \<open>
  One shift each way, two iterations of the loop, and a channel pass, on the example
  buffers.
\<close>

theorem source_never_mutated_witness:
  "glitch_right 1 (doc_state, [0, 0])
     = Inr (doc_state\<lparr>outputarr := [[3, 0, 1, 2], [4, 5, 6, 7], [8, 9, 10, 11], [12, 13, 14, 15]]\<rparr>, [])
   \<and> glitch_left 1 (doc_state, [0, 0])
     = Inr (doc_state\<lparr>outputarr := [[1, 2, 3, 0], [4, 5, 6, 7], [8, 9, 10, 11], [12, 13, 14, 15]]\<rparr>, [])
   \<and> wf3 doc_state \<and> 4 \<le> img_width doc_state
   \<and> glitch_loop 2 4 (doc_state, [1, 0, 0, 2, 1, 0])
     = Inr (doc_state\<lparr>outputarr := [[3, 0, 1, 2], [6, 7, 4, 5], [8, 9, 10, 11], [12, 13, 14, 15]]\<rparr>, [])
   \<and> color_offset 1 1 1 rgb_state
     = Inr (rgb_state\<lparr>outputarr := [[1, 10, 3, 4, 7, 6], [7, 4, 9, 10, 1, 12]]\<rparr>)
   \<and> inputarr (doc_state\<lparr>outputarr := [[3, 0, 1, 2], [4, 5, 6, 7], [8, 9, 10, 11], [12, 13, 14, 15]]\<rparr>)
       = inputarr doc_state
   \<and> inputarr (doc_state\<lparr>outputarr := [[1, 2, 3, 0], [4, 5, 6, 7], [8, 9, 10, 11], [12, 13, 14, 15]]\<rparr>)
       = inputarr doc_state
   \<and> inputarr (doc_state\<lparr>outputarr := [[3, 0, 1, 2], [6, 7, 4, 5], [8, 9, 10, 11], [12, 13, 14, 15]]\<rparr>)
       = inputarr doc_state
   \<and> inputarr (rgb_state\<lparr>outputarr := [[1, 10, 3, 4, 7, 6], [7, 4, 9, 10, 1, 12]]\<rparr>)
       = inputarr rgb_state
   \<and> (outputarr (doc_state\<lparr>outputarr := [[3, 0, 1, 2], [6, 7, 4, 5], [8, 9, 10, 11], [12, 13, 14, 15]]\<rparr>) ! 1
           = outputarr doc_state ! 1
         \<or> (\<exists>k. outputarr (doc_state\<lparr>outputarr := [[3, 0, 1, 2], [6, 7, 4, 5], [8, 9, 10, 11], [12, 13, 14, 15]]\<rparr>) ! 1
                  = rotate k (inputarr doc_state ! 1)))
   \<and> (outputarr (doc_state\<lparr>outputarr := [[3, 0, 1, 2], [6, 7, 4, 5], [8, 9, 10, 11], [12, 13, 14, 15]]\<rparr>) ! 2
           = outputarr doc_state ! 2
         \<or> (\<exists>k. outputarr (doc_state\<lparr>outputarr := [[3, 0, 1, 2], [6, 7, 4, 5], [8, 9, 10, 11], [12, 13, 14, 15]]\<rparr>) ! 2
                  = rotate k (inputarr doc_state ! 2)))"
proof -
  have r: "glitch_right 1 (doc_state, [0, 0])
     = Inr (doc_state\<lparr>outputarr := [[3, 0, 1, 2], [4, 5, 6, 7], [8, 9, 10, 11], [12, 13, 14, 15]]\<rparr>, [])"
    by code_simp
  have l: "glitch_left 1 (doc_state, [0, 0])
     = Inr (doc_state\<lparr>outputarr := [[1, 2, 3, 0], [4, 5, 6, 7], [8, 9, 10, 11], [12, 13, 14, 15]]\<rparr>, [])"
    by code_simp
  have w: "wf3 doc_state" by (simp add: wf3_def doc_state_def doc_rows_def)
  have m: "4 \<le> img_width doc_state" by (simp add: doc_state_def)
  have lp: "glitch_loop 2 4 (doc_state, [1, 0, 0, 2, 1, 0])
     = Inr (doc_state\<lparr>outputarr := [[3, 0, 1, 2], [6, 7, 4, 5], [8, 9, 10, 11], [12, 13, 14, 15]]\<rparr>, [])"
    by code_simp
  have c: "color_offset 1 1 1 rgb_state
     = Inr (rgb_state\<lparr>outputarr := [[1, 10, 3, 4, 7, 6], [7, 4, 9, 10, 1, 12]]\<rparr>)"
    by code_simp
  have r1: "1 < length (outputarr doc_state)" and r2: "2 < length (outputarr doc_state)"
    by (simp_all add: doc_state_def doc_rows_def)
  have wml: "wf3 doc_state \<and> 4 \<le> img_width doc_state
     \<and> glitch_loop 2 4 (doc_state, [1, 0, 0, 2, 1, 0])
        = Inr (doc_state\<lparr>outputarr := [[3, 0, 1, 2], [6, 7, 4, 5], [8, 9, 10, 11], [12, 13, 14, 15]]\<rparr>, [])"
    using w m lp by simp
  from r l w m lp c
    source_never_mutated [of 1 doc_state "[0, 0]" _ "[]" 2 4, THEN conjunct1, rule_format, OF r]
    source_never_mutated [of 1 doc_state "[0, 0]" _ "[]" 2 4, THEN conjunct2, THEN conjunct1, rule_format, OF l]
    source_never_mutated [THEN conjunct2, THEN conjunct2, THEN conjunct1, rule_format, OF lp]
    source_never_mutated [THEN conjunct2, THEN conjunct2, THEN conjunct2, THEN conjunct1, rule_format, OF c]
    source_never_mutated [THEN conjunct2, THEN conjunct2, THEN conjunct2, THEN conjunct2, THEN mp, OF wml,
      rule_format, OF r1]
    source_never_mutated [THEN conjunct2, THEN conjunct2, THEN conjunct2, THEN conjunct2, THEN mp, OF wml,
      rule_format, OF r2]
  show ?thesis by blast
qed

section \<open>The leftward branch of the loop\<close>

lemma glitch_step_is_spec: "glitch_step mo s = glitch_step_spec mo s"
proof (cases s)
  case (Pair st g)
  show ?thesis
  proof (cases "randint 0 mo g")
    case (Inl e)
    with Pair show ?thesis by (simp add: glitch_step_def glitch_step_spec_def)
  next
    case (Inr p)
    obtain off g1 where p: "p = (off, g1)" by (cases p)
    from Inr p randint_range have "0 \<le> off" by fastforce
    then have "\<not> off < 0" by simp
    with Pair Inr p show ?thesis by (simp add: glitch_step_def glitch_step_spec_def)
  qed
qed

lemma glitch_loop_is_spec: "glitch_loop n mo s = glitch_loop_spec n mo s"
  by (induction n arbitrary: s) (auto simp: glitch_step_is_spec split: sum.splits)

text \<open>
  Claim C9. In every run of the loop of \<^verbatim>\<open>glitch_image\<close> the leftward shift is never
  called: the offset drawn by \<^verbatim>\<open>randint(0, max_offset)\<close> is never negative, so an
  iteration either skips (offset 0) or calls \<^verbatim>\<open>glitch_right\<close>; the loop of the source
  equals, for every bound, iteration count, state and random source, the loop that has
  no leftward branch at all.
\<close>

theorem left_shift_never_invoked:
  "glitch_step max_offset s = glitch_step_spec max_offset s
   \<and> glitch_loop n max_offset s = glitch_loop_spec n max_offset s
   \<and> (randint 0 max_offset g = Inr (current_offset, g1)
        \<longrightarrow> \<not> current_offset < 0 \<and> current_offset \<le> max_offset
            \<and> glitch_step max_offset (st, g)
                = (if current_offset = 0 then Inr (st, g1)
                   else glitch_right current_offset (st, g1)))"
proof (intro conjI impI)
  show "glitch_step max_offset s = glitch_step_spec max_offset s"
    by (rule glitch_step_is_spec)
  show "glitch_loop n max_offset s = glitch_loop_spec n max_offset s"
    by (rule glitch_loop_is_spec)
next
  assume r: "randint 0 max_offset g = Inr (current_offset, g1)"
  from randint_range [OF r] show "\<not> current_offset < 0" by simp
  from randint_range [OF r] show "current_offset \<le> max_offset" by simp
  from randint_range [OF r] r
  show "glitch_step max_offset (st, g)
          = (if current_offset = 0 then Inr (st, g1) else glitch_right current_offset (st, g1))"
    by (simp add: glitch_step_def)
qed

text \<open>An iteration that draws offset 2 out of \<open>[0, 4]\<close>.\<close>

theorem left_shift_never_invoked_witness:
  "randint 0 4 [2] = Inr (2, [])
   \<and> \<not> (2::int) < 0 \<and> (2::int) \<le> 4
   \<and> glitch_step 4 (doc_state, [2, 1, 0]) = glitch_right 2 (doc_state, [1, 0])
   \<and> glitch_step 4 (doc_state, [2, 1, 0]) = glitch_step_spec 4 (doc_state, [2, 1, 0])"
proof -
  have r: "randint 0 4 [2, 1, 0] = Inr (2, [1, 0])" by (simp add: randint_def)
  have r': "randint 0 4 [2] = Inr (2, [])" by (simp add: randint_def)
  note t = left_shift_never_invoked [of 4 "(doc_state, [2, 1, 0])" 0 "[2, 1, 0]" 2 "[1, 0]" doc_state]
  have a: "glitch_step 4 (doc_state, [2, 1, 0]) = glitch_step_spec 4 (doc_state, [2, 1, 0])"
    by (rule t [THEN conjunct1])
  have b: "glitch_step 4 (doc_state, [2, 1, 0]) = glitch_right 2 (doc_state, [1, 0])"
    using t [THEN conjunct2, THEN conjunct2, rule_format, OF r] by simp
  from r' a b show ?thesis by (intro conjI) simp_all
qed

section \<open>Images of fewer than four rows\<close>

lemma glitch_right_small:
  assumes "img_height st \<le> 3"
  shows "glitch_right offset (st, g) = Inl EmptyRange"
  using select_band_small [OF assms] by (simp add: glitch_right_def)

lemma glitch_left_small:
  assumes "img_height st \<le> 3"
  shows "glitch_left offset (st, g) = Inl EmptyRange"
  using select_band_small [OF assms] by (simp add: glitch_left_def)

text \<open>
  Claim C10. For an image whose height is 1, 2 or 3 and an intensity in \<open>[1, 10]\<close>: if
  some iteration of the loop (the one after \<open>k\<close> completed iterations, \<open>k\<close> below the
  \<open>2 * glitch_amount\<close> iterations of the run) draws a nonzero offset, then the band-height
  draw is \<^verbatim>\<open>randint(1, 0)\<close>, which raises; the iteration fails with that error and so does
  \<^verbatim>\<open>glitch_image\<close>.
\<close>

theorem small_image_band_draw_fails:
  assumes h: "1 \<le> size_h im" "size_h im \<le> 3"
    and ga: "1 \<le> glitch_amount" "glitch_amount \<le> 10"
    and k: "k < nat (glitch_amount * 2)"
    and pre: "glitch_loop k (max_offset_for glitch_amount (int (size_w im))) (initial_state im, g)
                = Inr (st_k, g_k)"
    and dr: "randint 0 (max_offset_for glitch_amount (int (size_w im))) g_k = Inr (current_offset, g1)"
    and nz: "current_offset \<noteq> 0"
  shows "int_quarter (img_height st_k) = 0
         \<and> randint 1 (int_quarter (img_height st_k)) g2 = Inl EmptyRange
         \<and> glitch_step (max_offset_for glitch_amount (int (size_w im))) (st_k, g_k) = Inl EmptyRange
         \<and> glitch_image (Decoded im) glitch_amount g = Inl EmptyRange"
proof -
  define mo where "mo = max_offset_for glitch_amount (int (size_w im))"
  have hk: "img_height st_k = int (size_h im)"
    using glitch_loop_frame [OF pre] by (simp add: initial_state_def)
  then have small: "img_height st_k \<le> 3" "0 \<le> img_height st_k" using h by simp_all
  then have q: "int_quarter (img_height st_k) = 0" by (simp add: int_quarter_def)
  have a: "randint 1 (int_quarter (img_height st_k)) g2 = Inl EmptyRange"
    by (simp add: q randint_def)
  have b: "glitch_step mo (st_k, g_k) = Inl EmptyRange"
    using dr nz glitch_right_small [OF small(1)] glitch_left_small [OF small(1)]
    by (simp add: glitch_step_def mo_def)
  obtain m where m: "nat (glitch_amount * 2) = k + Suc m"
    using k by (metis less_imp_Suc_add add_Suc_right)
  have "glitch_loop (nat (glitch_amount * 2)) mo (initial_state im, g) = Inl EmptyRange"
    unfolding m glitch_loop_add using pre b by (simp add: mo_def)
  then have c: "glitch_image (Decoded im) glitch_amount g = Inl EmptyRange"
    using ga by (simp add: glitch_image_def Let_def mo_def initial_state_def)
  from q a b c show ?thesis by (simp add: mo_def)
qed

text \<open>
  A 2 x 2 single-band image at intensity 10 (\<open>max_offset = 2\<close>): the first iteration
  draws 0 and skips, the second draws 1.
\<close>

theorem small_image_band_draw_fails_witness:
  "1 \<le> size_h grey_image \<and> size_h grey_image \<le> 3 \<and> (1::int) \<le> 10 \<and> (10::int) \<le> 10
   \<and> 1 < nat (10 * 2)
   \<and> glitch_loop 1 (max_offset_for 10 (int (size_w grey_image))) (initial_state grey_image, [0, 1])
        = Inr (initial_state grey_image, [1])
   \<and> randint 0 (max_offset_for 10 (int (size_w grey_image))) [1] = Inr (1, [])
   \<and> (1::int) \<noteq> 0
   \<and> glitch_step (max_offset_for 10 (int (size_w grey_image))) (initial_state grey_image, [1])
        = Inl EmptyRange
   \<and> glitch_image (Decoded grey_image) 10 [0, 1] = Inl EmptyRange"
proof -
  have h1: "1 \<le> size_h grey_image" and h2: "size_h grey_image \<le> 3"
    by (simp_all add: grey_image_def)
  have g1: "(1::int) \<le> 10" and g2: "(10::int) \<le> 10" by simp_all
  have k: "1 < nat (10 * 2)" by simp
  have pre: "glitch_loop 1 (max_offset_for 10 (int (size_w grey_image))) (initial_state grey_image, [0, 1])
        = Inr (initial_state grey_image, [1])"
    by code_simp
  have dr: "randint 0 (max_offset_for 10 (int (size_w grey_image))) [1] = Inr (1, [])"
    by code_simp
  have nz: "(1::int) \<noteq> 0" by simp
  from small_image_band_draw_fails [OF h1 h2 g1 g2 k pre dr nz]
  show ?thesis using h1 h2 pre dr by simp
qed

section \<open>The range of the start row\<close>

text \<open>
  Claim C5 says that the start row of the band is drawn from \<open>[0, height)\<close>, the height
  excluded. The source draws \<^verbatim>\<open>randint(0, img_height)\<close>, whose upper end is included: on the
  4-row example the draw can be 4, the clamp then makes the band \<open>[4, 4)\<close>, and the shift
  returns with nothing written. (What does hold of every selected band is lemma
  \<open>select_band_bounds\<close>.)
\<close>

theorem start_row_can_equal_height:
  "randint 0 (img_height doc_state) [4, 0] = Inr (4, [0])
   \<and> select_band (img_height doc_state) [4, 0] = Inr ((4, 4), [])
   \<and> glitch_right 1 (doc_state, [4, 0]) = Inr (doc_state, [])
   \<and> glitch_left 1 (doc_state, [4, 0]) = Inr (doc_state, [])"
  by code_simp

section \<open>Offset 0\<close>

text \<open>
  Claim C6 says that a shift called with offset 0 fails with an invalid-offset error.
  Neither shift tests its offset: on the 4 x 4 example both return normally with offset 0.
\<close>

theorem zero_offset_is_not_rejected:
  "glitch_right 0 (doc_state, [0, 0]) = Inr (doc_state, [])
   \<and> glitch_left 0 (doc_state, [0, 0]) = Inr (doc_state, [])"
  by code_simp

text \<open>
  Claim C6 as the source has it. On a well-formed buffer, when the band
  \<open>[start_y, stop_y)\<close> is selected, \<^verbatim>\<open>glitch_right(0)\<close> and \<^verbatim>\<open>glitch_left(0)\<close> return normally:
  each row of the band in the output becomes the source row, unshifted, and every other
  row is left as it was. The loop of \<^verbatim>\<open>glitch_image\<close> never makes such a call: an
  iteration whose drawn offset is 0 returns the state unchanged.
\<close>

theorem zero_offset_copies_band:
  assumes wf: "wf3 st"
    and sb: "select_band (img_height st) g = Inr ((start_y, stop_y), g')"
    and dr: "randint 0 max_offset g0 = Inr (0, g1)"
  shows "(\<exists>out. glitch_right 0 (st, g) = Inr (st\<lparr>outputarr := out\<rparr>, g')
            \<and> length out = length (outputarr st)
            \<and> (\<forall>r < length out.
                  out ! r = (if start_y \<le> int r \<and> int r < stop_y
                             then inputarr st ! r else outputarr st ! r)))
       \<and> (\<exists>out. glitch_left 0 (st, g) = Inr (st\<lparr>outputarr := out\<rparr>, g')
            \<and> length out = length (outputarr st)
            \<and> (\<forall>r < length out.
                  out ! r = (if start_y \<le> int r \<and> int r < stop_y
                             then inputarr st ! r else outputarr st ! r)))
       \<and> glitch_step max_offset (st, g0) = Inr (st, g1)"
proof -
  have o: "(0::int) \<le> 0" "0 \<le> img_width st" using wf by (simp_all add: wf3_def)
  have s0: "0 \<le> start_y" using select_band_bounds [OF sb] by simp
  have band: "(start_y \<le> int r \<and> int r < stop_y) = (nat start_y \<le> r \<and> r < nat stop_y)" for r
    using s0 by linarith
  have lin: "length (inputarr st) = length (outputarr st)"
    and win: "list_all (\<lambda>row. length row = nat (img_width st)) (inputarr st)"
    using wf by (simp_all add: wf3_def)
  have li: "length (inputarr st ! r) = nat (img_width st)" if "r < length (outputarr st)" for r
    using that lin win by (simp add: list_all_length)
  from glitch_right_rows [OF wf o sb] obtain outr where
    er: "glitch_right 0 (st, g) = Inr (st\<lparr>outputarr := outr\<rparr>, g')"
    and lr: "length outr = length (outputarr st)"
    and nr: "\<forall>r < length outr. outr ! r =
                 (if nat start_y \<le> r \<and> r < nat stop_y
                  then drop (nat (img_width st - 0)) (inputarr st ! r)
                       @ take (nat (img_width st - 0)) (inputarr st ! r)
                  else outputarr st ! r)"
    by blast
  from glitch_left_rows [OF wf o sb] obtain outl where
    el: "glitch_left 0 (st, g) = Inr (st\<lparr>outputarr := outl\<rparr>, g')"
    and ll: "length outl = length (outputarr st)"
    and nl: "\<forall>r < length outl. outl ! r =
                 (if nat start_y \<le> r \<and> r < nat stop_y
                  then drop (nat 0) (inputarr st ! r) @ take (nat 0) (inputarr st ! r)
                  else outputarr st ! r)"
    by blast
  have right: "outr ! r = (if start_y \<le> int r \<and> int r < stop_y
                           then inputarr st ! r else outputarr st ! r)"
    if r: "r < length outr" for r
    using nr [rule_format, OF r] li [of r] r lr band [of r] by simp
  have left: "outl ! r = (if start_y \<le> int r \<and> int r < stop_y
                          then inputarr st ! r else outputarr st ! r)"
    if r: "r < length outl" for r
    using nl [rule_format, OF r] band [of r] by simp
  have skip: "glitch_step max_offset (st, g0) = Inr (st, g1)"
    using dr by (simp add: glitch_step_def)
  from er lr right el ll left skip show ?thesis by blast
qed

text \<open>The band \<open>[1, 2)\<close> of the 4 x 4 example, and an iteration that draws 0.\<close>

theorem zero_offset_copies_band_witness:
  "wf3 doc_state
   \<and> select_band (img_height doc_state) [1, 0] = Inr ((1, 2), [])
   \<and> randint 0 3 [0, 5] = Inr (0, [5])
   \<and> (\<exists>out. glitch_right 0 (doc_state, [1, 0]) = Inr (doc_state\<lparr>outputarr := out\<rparr>, [])
         \<and> length out = length (outputarr doc_state)
         \<and> (\<forall>r < length out.
               out ! r = (if 1 \<le> int r \<and> int r < 2
                          then inputarr doc_state ! r else outputarr doc_state ! r)))
   \<and> (\<exists>out. glitch_left 0 (doc_state, [1, 0]) = Inr (doc_state\<lparr>outputarr := out\<rparr>, [])
         \<and> length out = length (outputarr doc_state)
         \<and> (\<forall>r < length out.
               out ! r = (if 1 \<le> int r \<and> int r < 2
                          then inputarr doc_state ! r else outputarr doc_state ! r)))
   \<and> glitch_step 3 (doc_state, [0, 5]) = Inr (doc_state, [5])"
proof -
  have h1: "wf3 doc_state" by (simp add: wf3_def doc_state_def doc_rows_def)
  have h2: "select_band (img_height doc_state) [1, 0] = Inr ((1, 2), [])"
    by (simp add: select_band_def randint_def int_quarter_def doc_state_def)
  have h3: "randint 0 3 [0, 5] = Inr (0, [5])" by (simp add: randint_def)
  show ?thesis using h1 h2 h3 zero_offset_copies_band [OF h1 h2 h3] by simp
qed

section \<open>Channel offset: full-cycle offsets\<close>

lemma ndenumerate_first:
  assumes "list_all (\<lambda>row. length row = m) arr"
  shows "ndenumerate arr = [] \<or> (\<exists>x es. ndenumerate arr = ((0, 0), x) # es)"
proof (cases arr)
  case Nil
  then show ?thesis by (simp add: ndenumerate_def enumerate_eq_zip)
next
  case (Cons row rest)
  show ?thesis
  proof (cases row)
    case Nil
    with Cons assms have m: "m = 0" by simp
    have "\<forall>p \<in> set (enumerate 0 arr). snd p = []"
      using assms m by (auto simp: enumerate_eq_zip list_all_iff dest: set_zip_rightD)
    then have "ndenumerate arr = []"
      by (auto simp: ndenumerate_def enumerate_eq_zip split: prod.splits)
    then show ?thesis by simp
  next
    case c: (Cons x xs)
    with Cons show ?thesis by (simp add: ndenumerate_def)
  qed
qed

lemma color_step_full_row:
  "color_step st c ((0, 0), x) (img_height st, fx, out) = color_step st c ((0, 0), x) (0, fx, out)"
  by (auto simp: color_step_def Let_def split: sum.splits)

lemma color_step_full_col:
  assumes "0 \<le> c"
  shows "color_step st c ((0, 0), x) (fy, img_width st * pixel_tuple_len st + c, out)
           = color_step st c ((0, 0), x) (fy, c, out)"
  using assms by (auto simp: color_step_def Let_def split: sum.splits)

text \<open>
  Claim C8. A row offset equal to the height gives the same result as row offset 0, and
  a column offset equal to the width gives the same result as column offset 0, for
  every buffer of the shape \<^verbatim>\<open>glitch_image\<close> sets up, every offset on the other axis and every
  channel index from 0 up. (In \<^verbatim>\<open>color_offset\<close> the column offset is the first argument and
  the row offset the second.)
\<close>

theorem full_cycle_offset_is_zero_offset:
  assumes wf: "wf2 st" and c: "0 \<le> channel_index"
  shows "color_offset offset_x (img_height st) channel_index st
           = color_offset offset_x 0 channel_index st
         \<and> color_offset (img_width st) offset_y channel_index st
           = color_offset 0 offset_y channel_index st"
proof -
  have rect: "list_all (\<lambda>row. length row = nat (img_width st * pixel_tuple_len st)) (inputarr st)"
    using wf by (simp add: wf2_def)
  from ndenumerate_first [OF rect]
  consider (empty) "ndenumerate (inputarr st) = []"
    | (first) x es where "ndenumerate (inputarr st) = ((0, 0), x) # es"
    by blast
  then show ?thesis
  proof cases
    case empty
    then show ?thesis by (simp add: color_offset_def Let_def)
  next
    case first
    have row: "color_loop st channel_index (ndenumerate (inputarr st)) (img_height st, fx, outputarr st)
                 = color_loop st channel_index (ndenumerate (inputarr st)) (0, fx, outputarr st)" for fx
      unfolding first by (simp add: color_step_full_row)
    have col: "color_loop st channel_index (ndenumerate (inputarr st))
                   (offset_y, img_width st * pixel_tuple_len st + channel_index, outputarr st)
                 = color_loop st channel_index (ndenumerate (inputarr st))
                   (offset_y, channel_index, outputarr st)"
      unfolding first by (simp add: color_step_full_col [OF c])
    have a: "color_offset offset_x (img_height st) channel_index st
               = color_offset offset_x 0 channel_index st"
      by (simp add: color_offset_def Let_def row)
    have b: "color_offset (img_width st) offset_y channel_index st
               = color_offset 0 offset_y channel_index st"
      by (simp add: color_offset_def Let_def col)
    from a b show ?thesis by simp
  qed
qed

text \<open>The 2 x 2 three-band example, channel 1.\<close>

theorem full_cycle_offset_is_zero_offset_witness:
  "wf2 rgb_state \<and> (0::int) \<le> 1
   \<and> color_offset 1 (img_height rgb_state) 1 rgb_state = color_offset 1 0 1 rgb_state
   \<and> color_offset (img_width rgb_state) (-1) 1 rgb_state = color_offset 0 (-1) 1 rgb_state"
proof -
  have h1: "wf2 rgb_state" by (simp add: wf2_def rgb_state_def)
  have h2: "(0::int) \<le> 1" by simp
  show ?thesis using h1 full_cycle_offset_is_zero_offset [OF h1 h2] by simp
qed

section \<open>Channel offset: offsets within one dimension\<close>

text \<open>
  What \<^verbatim>\<open>color_offset\<close> does for every offset whose magnitude is at most the dimension
  of its axis. The loop acts only on the elements at the flat columns \<open>0, p, 2p, ...\<close>
  (\<open>color_loop_filter\<close>, \<open>filter_ndenumerate\<close>). At each of them the two running offsets
  stay congruent to the arguments and the index written is the wrapped one
  (\<open>color_step_wrap\<close>); a row of the source lands in one row of the output
  (\<open>color_row\<close>), and the rows of the source land in distinct rows (\<open>color_rows\<close>).
\<close>

lemma color_step_skip:
  assumes "pixel_tuple_len st \<noteq> 0" "j mod pixel_tuple_len st \<noteq> 0"
  shows "color_step st c ((i, j), x) s = Inr s"
  using assms by (cases s) (simp add: color_step_def)

lemma color_loop_filter:
  assumes "pixel_tuple_len st \<noteq> 0"
  shows "color_loop st c es s
           = color_loop st c (filter (\<lambda>e. snd (fst e) mod pixel_tuple_len st = 0) es) s"
proof (induction es arbitrary: s)
  case Nil
  then show ?case by simp
next
  case (Cons e es)
  obtain i j x where e: "e = ((i, j), x)" by (cases e) auto
  show ?case
  proof (cases "j mod pixel_tuple_len st = 0")
    case True
    then show ?thesis using Cons e by (simp split: sum.splits)
  next
    case False
    then show ?thesis using Cons e color_step_skip [OF assms False] by simp
  qed
qed

lemma color_loop_append:
  "color_loop st c (xs @ ys) s =
     (case color_loop st c xs s of Inl e \<Rightarrow> Inl e | Inr s' \<Rightarrow> color_loop st c ys s')"
  by (induction xs arbitrary: s) (auto split: sum.splits)

lemma enumerate_nth: "enumerate 0 xs = map (\<lambda>i. (i, xs ! i)) [0..<length xs]"
  by (rule nth_equalityI) (simp_all add: nth_enumerate_eq)

lemma filter_multiples:
  assumes "0 < p"
  shows "filter (\<lambda>j. j mod p = 0) [0..<w * p] = map (\<lambda>q. q * p) [0..<w]"
proof (induction w)
  case 0
  then show ?case by simp
next
  case (Suc w)
  have "\<forall>j \<in> set [Suc (w * p)..<w * p + p]. j mod p \<noteq> 0"
  proof
    fix j assume "j \<in> set [Suc (w * p)..<w * p + p]"
    then have b: "w * p < j" "j < w * p + p" by simp_all
    define t where "t = j - w * p"
    have "j = w * p + t" "0 < t" "t < p" using b by (simp_all add: t_def)
    then show "j mod p \<noteq> 0" by simp
  qed
  then have tail: "filter (\<lambda>j. j mod p = 0) [Suc (w * p)..<w * p + p] = []"
    by (simp add: filter_empty_conv)
  have "[0..<w * p + p] = [0..<w * p] @ [w * p..<w * p + p]"
    by (rule upt_add_eq_append) simp
  then have "[0..<Suc w * p] = [0..<w * p] @ [w * p..<w * p + p]"
    by (simp add: add.commute)
  also have "[w * p..<w * p + p] = w * p # [Suc (w * p)..<w * p + p]"
    using assms by (simp add: upt_conv_Cons)
  finally show ?case using Suc tail by simp
qed

lemma filter_row:
  assumes p: "0 < p" and l: "length row = w * p"
  shows "filter (\<lambda>e. snd (fst e) mod int p = 0)
           (map (\<lambda>(j, x). ((int i, int j), x)) (enumerate 0 row))
         = first_slots w p i row"
proof -
  have "map (\<lambda>(j, x). ((int i, int j), x)) (enumerate 0 row)
          = map (\<lambda>j. ((int i, int j), row ! j)) [0..<w * p]"
    by (simp add: enumerate_nth l)
  moreover have "filter (\<lambda>e. snd (fst e) mod int p = 0)
                   (map (\<lambda>j. ((int i, int j), row ! j)) [0..<w * p])
                 = map (\<lambda>j. ((int i, int j), row ! j)) (filter (\<lambda>j. j mod p = 0) [0..<w * p])"
    by (simp add: filter_map comp_def zmod_int [symmetric])
  ultimately show ?thesis
    by (simp add: filter_multiples [OF p] first_slots_def comp_def)
qed

lemma filter_ndenumerate:
  assumes p: "0 < p" and r: "list_all (\<lambda>row. length row = w * p) arr"
  shows "filter (\<lambda>e. snd (fst e) mod int p = 0) (ndenumerate arr)
         = concat (map (\<lambda>i. first_slots w p i (arr ! i)) [0..<length arr])"
proof -
  have "filter (\<lambda>e. snd (fst e) mod int p = 0) (ndenumerate arr)
          = concat (map (\<lambda>i. filter (\<lambda>e. snd (fst e) mod int p = 0)
                                  (map (\<lambda>(j, x). ((int i, int j), x)) (enumerate 0 (arr ! i))))
                        [0..<length arr])"
    by (simp add: ndenumerate_def filter_concat enumerate_nth comp_def)
  also have "\<dots> = concat (map (\<lambda>i. first_slots w p i (arr ! i)) [0..<length arr])"
  proof -
    have "filter (\<lambda>e. snd (fst e) mod int p = 0)
             (map (\<lambda>(j, x). ((int i, int j), x)) (enumerate 0 (arr ! i)))
           = first_slots w p i (arr ! i)" if "i \<in> set [0..<length arr]" for i
      using that r by (intro filter_row [OF p]) (simp add: list_all_length)
    then have "map (\<lambda>i. filter (\<lambda>e. snd (fst e) mod int p = 0)
                        (map (\<lambda>(j, x). ((int i, int j), x)) (enumerate 0 (arr ! i))))
                 [0..<length arr]
               = map (\<lambda>i. first_slots w p i (arr ! i)) [0..<length arr]"
      by (intro map_cong refl)
    then show ?thesis by (rule arg_cong [where f = concat])
  qed
  finally show ?thesis .
qed

lemma norm_index_mod:
  assumes "- int n \<le> r" "r < int n"
  shows "norm_index n r = Inr (nat (r mod int n))"
proof (cases "r < 0")
  case True
  then have "0 \<le> r + int n" "r + int n < int n" using assms by simp_all
  then have "(r + int n) mod int n = r + int n" by (rule mod_pos_pos_trivial)
  moreover have "(r + int n) mod int n = r mod int n" by (rule mod_add_self2)
  ultimately have "r mod int n = r + int n" by (simp only:)
  with True assms show ?thesis by (simp add: norm_index_def)
next
  case False
  then have "r mod int n = r" using assms by simp
  with False assms show ?thesis by (simp add: norm_index_def)
qed

lemma tuple_index_mod:
  fixes a p c w :: int
  assumes "0 < p" "0 \<le> c" "c < p" "0 < w"
  shows "(a * p + c) mod (w * p) = (a mod w) * p + c"
proof -
  define r where "r = (a mod w) * p + c"
  have m: "0 \<le> a mod w" "a mod w \<le> w - 1" using assms by simp_all
  have "(a mod w) * p \<le> (w - 1) * p" using m(2) assms(1) by (simp add: mult_right_mono)
  then have hi: "r < w * p" using assms by (simp add: r_def algebra_simps)
  have lo: "0 \<le> r" using m(1) assms by (simp add: r_def)
  have "a * p + c = (a div w) * (w * p) + r"
  proof -
    define d where "d = a div w"
    define m where "m = a mod w"
    have a: "a = d * w + m" by (simp add: d_def m_def)
    have "a * p + c = d * (w * p) + (m * p + c)"
      unfolding a by (simp add: algebra_simps)
    then show ?thesis by (simp add: r_def d_def m_def)
  qed
  then have "(a * p + c) mod (w * p) = r mod (w * p)" by simp
  also have "\<dots> = r" using lo hi by simp
  finally show ?thesis by (simp add: r_def)
qed

lemma tuple_fire_iff:
  fixes u q p c w :: int
  assumes "0 < p" "0 \<le> c" "c < p"
  shows "(w * p \<le> u * p + c + q * p) = (w \<le> u + q)"
proof
  assume "w \<le> u + q"
  then have "w * p \<le> (u + q) * p" using assms(1) by (simp add: mult_right_mono)
  then show "w * p \<le> u * p + c + q * p" using assms(2) by (simp add: algebra_simps)
next
  assume a: "w * p \<le> u * p + c + q * p"
  show "w \<le> u + q"
  proof (rule ccontr)
    assume "\<not> w \<le> u + q"
    then have "u + q \<le> w - 1" by simp
    then have "(u + q) * p \<le> (w - 1) * p" using assms(1) by (simp add: mult_right_mono)
    then have "u * p + c + q * p < w * p" using assms(3) by (simp add: algebra_simps)
    with a show False by simp
  qed
qed

lemma color_step_wrap:
  fixes st :: "'a list list glitcher"
  assumes H: "0 < img_height st" and W: "0 < img_width st" and p: "0 < pixel_tuple_len st"
    and c: "0 \<le> c" "c < pixel_tuple_len st"
    and lo: "length out = nat (img_height st)"
    and wo: "\<forall>row \<in> set out. length row = nat (img_width st * pixel_tuple_len st)"
    and i: "0 \<le> i" "i < img_height st"
    and q: "0 \<le> q" "q < img_width st"
    and iy: "- img_height st \<le> fy" "fy + i \<le> img_height st" "img_height st dvd (fy - oy)"
    and ix: "- img_width st \<le> u" "u + q \<le> img_width st" "img_width st dvd (u - ox)"
  shows "\<exists>fy' u'.
           color_step st c ((i, q * pixel_tuple_len st), x) (fy, u * pixel_tuple_len st + c, out)
             = Inr (fy', u' * pixel_tuple_len st + c,
                    out[nat ((i + oy) mod img_height st) :=
                          (out ! nat ((i + oy) mod img_height st))
                            [nat (((q + ox) mod img_width st) * pixel_tuple_len st + c) := x]])
           \<and> - img_height st \<le> fy' \<and> fy' + i < img_height st \<and> img_height st dvd (fy' - oy)
           \<and> - img_width st \<le> u' \<and> u' + q < img_width st \<and> img_width st dvd (u' - ox)"
proof -
  define h where "h = img_height st"
  define w where "w = img_width st"
  define t where "t = pixel_tuple_len st"
  define fy' where "fy' = (if h \<le> fy + i then - i else fy)"
  define u' where "u' = (if w \<le> u + q then - q else u)"
  note d = h_def [symmetric] w_def [symmetric] t_def [symmetric]
  have hp: "0 < h" "0 < w" "0 < t" "c < t" using H W p c by (simp_all add: h_def w_def t_def)
  have iy': "- h \<le> fy" "fy + i \<le> h" "h dvd (fy - oy)" "i < h"
    and ix': "- w \<le> u" "u + q \<le> w" "w dvd (u - ox)" "q < w"
    using iy ix i q by (simp_all add: h_def w_def)
  \<comment> \<open>the row offset after the wrap test\<close>
  have y1: "- h \<le> fy'" "fy' + i < h" using iy' i by (auto simp: fy'_def)
  have y2: "h dvd (fy' - oy)"
  proof (cases "h \<le> fy + i")
    case True
    then have e: "fy' - oy = (fy - oy) - h" using iy' by (simp add: fy'_def)
    have "h dvd (fy - oy) - h" by (rule dvd_diff [OF iy'(3) dvd_refl])
    then show ?thesis by (simp only: e)
  next
    case False
    then show ?thesis using iy'(3) by (simp add: fy'_def)
  qed
  \<comment> \<open>the column offset after the wrap test\<close>
  have x1: "- w \<le> u'" "u' + q < w" using ix' q by (auto simp: u'_def)
  have x2: "w dvd (u' - ox)"
  proof (cases "w \<le> u + q")
    case True
    then have e: "u' - ox = (u - ox) - w" using ix' by (simp add: u'_def)
    have "w dvd (u - ox) - w" by (rule dvd_diff [OF ix'(3) dvd_refl])
    then show ?thesis by (simp only: e)
  next
    case False
    then show ?thesis using ix'(3) by (simp add: u'_def)
  qed
  have fire: "(w * t \<le> u * t + c + q * t) = (w \<le> u + q)"
    by (rule tuple_fire_iff) (use hp c in simp_all)
  have offx: "(if w * t \<le> u * t + c + q * t then - (q * t) + c else u * t + c) = u' * t + c"
    unfolding fire by (simp add: u'_def)
  \<comment> \<open>the row index of the write\<close>
  have "(fy' + i) mod h = (i + oy) mod h"
  proof -
    have "h dvd ((fy' + i) - (i + oy))" using y2 by simp
    then show ?thesis by (simp only: mod_eq_dvd_iff)
  qed
  moreover have "norm_index (nat h) (fy' + i) = Inr (nat ((fy' + i) mod int (nat h)))"
    by (rule norm_index_mod) (use y1 hp i in simp_all)
  ultimately have ri: "norm_index (length out) (fy' + i) = Inr (nat ((i + oy) mod h))"
    using hp lo by (simp add: h_def)
  have rlt: "nat ((i + oy) mod h) < length out" using hp lo by (simp add: h_def)
  have rl: "length (out ! nat ((i + oy) mod h)) = nat (w * t)"
    using wo rlt by (simp add: w_def t_def)
  \<comment> \<open>the column index of the write\<close>
  have cidx: "u' * t + c + q * t = (u' + q) * t + c" by (simp add: algebra_simps)
  have "(u' + q) * t \<le> (w - 1) * t" using x1 hp by (simp add: mult_right_mono)
  then have chi: "(u' + q) * t + c < w * t" using hp by (simp add: algebra_simps)
  have "(- w) * t \<le> (u' + q) * t" using x1 q hp by (intro mult_right_mono) simp_all
  then have clo: "- (w * t) \<le> (u' + q) * t + c" using c by simp
  have wt: "0 < w * t" using hp by simp
  have "((u' + q) * t + c) mod (w * t) = ((u' + q) mod w) * t + c"
    by (rule tuple_index_mod) (use hp c in simp_all)
  moreover have "(u' + q) mod w = (q + ox) mod w"
  proof -
    have "w dvd ((u' + q) - (q + ox))" using x2 by simp
    then show ?thesis by (simp only: mod_eq_dvd_iff)
  qed
  moreover have "norm_index (nat (w * t)) ((u' + q) * t + c)
                   = Inr (nat (((u' + q) * t + c) mod int (nat (w * t))))"
    by (rule norm_index_mod) (use clo chi wt in simp_all)
  ultimately have ci: "norm_index (nat (w * t)) (u' * t + c + q * t)
                         = Inr (nat (((q + ox) mod w) * t + c))"
    using wt by (simp add: cidx)
  have set: "setitem2 out (fy' + i) (u' * t + c + q * t) x
               = Inr (out[nat ((i + oy) mod h) :=
                            (out ! nat ((i + oy) mod h))[nat (((q + ox) mod w) * t + c) := x]])"
    by (simp add: setitem2_def ri rl ci)
  have tz: "t \<noteq> 0" "(q * t) mod t = 0" using hp by simp_all
  have "color_step st c ((i, q * t), x) (fy, u * t + c, out)
          = Inr (fy', u' * t + c,
                 out[nat ((i + oy) mod h) :=
                       (out ! nat ((i + oy) mod h))[nat (((q + ox) mod w) * t + c) := x]])"
    unfolding color_step_def d
    using tz set offx by (simp add: Let_def fy'_def [symmetric])
  then show ?thesis using y1 y2 x1 x2 unfolding h_def w_def t_def by blast
qed

lemma dest_col_inj:
  fixes w t c ox :: int
  assumes "0 < w" "0 < t" "q1 < nat w" "q2 < nat w"
    and "nat (((int q1 + ox) mod w) * t + c) = nat (((int q2 + ox) mod w) * t + c)"
    and "0 \<le> c"
  shows "q1 = q2"
proof -
  have n1: "0 \<le> ((int q1 + ox) mod w) * t + c" "0 \<le> ((int q2 + ox) mod w) * t + c"
    using assms by simp_all
  with assms(5) have "((int q1 + ox) mod w) * t + c = ((int q2 + ox) mod w) * t + c"
    by (metis nat_eq_iff2)
  then have "(int q1 + ox) mod w = (int q2 + ox) mod w" using assms(2) by simp
  then have "w dvd ((int q1 + ox) - (int q2 + ox))" by (simp only: mod_eq_dvd_iff)
  then have dv: "w dvd (int q1 - int q2)" by simp
  have "\<bar>int q1 - int q2\<bar> < w" using assms(3,4) by linarith
  with dv have "int q1 - int q2 = 0"
    using dvd_imp_le_int [of "int q1 - int q2" w] by fastforce
  then show ?thesis by simp
qed

lemma dest_col_less:
  fixes w t c a :: int
  assumes "0 < w" "0 < t" "0 \<le> c" "c < t"
  shows "nat ((a mod w) * t + c) < nat (w * t)"
proof -
  have "a mod w \<le> w - 1" "0 \<le> a mod w" using assms by simp_all
  then have "(a mod w) * t \<le> (w - 1) * t" using assms(2) by (simp add: mult_right_mono)
  then have "(a mod w) * t + c < w * t" using assms by (simp add: algebra_simps)
  moreover have "0 \<le> (a mod w) * t + c" using assms \<open>0 \<le> a mod w\<close> by simp
  ultimately show ?thesis by linarith
qed

lemma color_row:
  fixes st :: "'a list list glitcher"
  assumes H: "0 < img_height st" and W: "0 < img_width st" and p: "0 < pixel_tuple_len st"
    and c: "0 \<le> c" "c < pixel_tuple_len st"
    and i: "i < nat (img_height st)"
  shows "length out = nat (img_height st) \<Longrightarrow>
         \<forall>r \<in> set out. length r = nat (img_width st * pixel_tuple_len st) \<Longrightarrow>
         - img_height st \<le> fy \<Longrightarrow> fy + int i \<le> img_height st \<Longrightarrow>
         img_height st dvd (fy - oy) \<Longrightarrow>
         - img_width st \<le> u \<Longrightarrow> u + int q0 \<le> img_width st \<Longrightarrow>
         img_width st dvd (u - ox) \<Longrightarrow>
         \<exists>fy' u' newrow.
           color_loop st c
               (map (\<lambda>q. ((int i, int (q * nat (pixel_tuple_len st))),
                            row ! (q * nat (pixel_tuple_len st))))
                    [q0..<nat (img_width st)])
               (fy, u * pixel_tuple_len st + c, out)
             = Inr (fy', u' * pixel_tuple_len st + c,
                    out[nat ((int i + oy) mod img_height st) := newrow])
           \<and> length newrow = nat (img_width st * pixel_tuple_len st)
           \<and> (\<forall>q. q0 \<le> q \<and> q < nat (img_width st) \<longrightarrow>
                  newrow ! nat (((int q + ox) mod img_width st) * pixel_tuple_len st + c)
                    = row ! (q * nat (pixel_tuple_len st)))
           \<and> (\<forall>j. (\<forall>q. q0 \<le> q \<and> q < nat (img_width st) \<longrightarrow>
                        j \<noteq> nat (((int q + ox) mod img_width st) * pixel_tuple_len st + c))
                  \<longrightarrow> newrow ! j = out ! nat ((int i + oy) mod img_height st) ! j)
           \<and> - img_height st \<le> fy' \<and> fy' + int i \<le> img_height st
           \<and> (q0 < nat (img_width st) \<longrightarrow> fy' + int i < img_height st)
           \<and> img_height st dvd (fy' - oy)
           \<and> - img_width st \<le> u' \<and> u' \<le> img_width st \<and> (q0 < nat (img_width st) \<longrightarrow> u' \<le> 0)
           \<and> img_width st dvd (u' - ox)"
proof (induction "nat (img_width st) - q0" arbitrary: q0 fy u out)
  case 0
  define dr where "dr = nat ((int i + oy) mod img_height st)"
  have ge: "nat (img_width st) \<le> q0" using "0.hyps" by simp
  then have e: "[q0..<nat (img_width st)] = []" by simp
  have dr_lt: "dr < length out" using H "0.prems"(1) by (simp add: dr_def)
  have A: "color_loop st c
               (map (\<lambda>q. ((int i, int (q * nat (pixel_tuple_len st))),
                            row ! (q * nat (pixel_tuple_len st))))
                    [q0..<nat (img_width st)])
               (fy, u * pixel_tuple_len st + c, out)
             = Inr (fy, u * pixel_tuple_len st + c, out[dr := out ! dr])"
    unfolding e by simp
  have B: "length (out ! dr) = nat (img_width st * pixel_tuple_len st)"
    using dr_lt "0.prems"(2) by simp
  have C: "\<forall>q. q0 \<le> q \<and> q < nat (img_width st) \<longrightarrow>
                  (out ! dr) ! nat (((int q + ox) mod img_width st) * pixel_tuple_len st + c)
                    = row ! (q * nat (pixel_tuple_len st))"
    using ge by auto
  have D: "\<forall>j. (\<forall>q. q0 \<le> q \<and> q < nat (img_width st) \<longrightarrow>
                        j \<noteq> nat (((int q + ox) mod img_width st) * pixel_tuple_len st + c))
                  \<longrightarrow> (out ! dr) ! j = out ! dr ! j"
    by simp
  have E: "q0 < nat (img_width st) \<longrightarrow> fy + int i < img_height st"
    "q0 < nat (img_width st) \<longrightarrow> u \<le> 0"
    using ge by simp_all
  have F: "u \<le> img_width st" using "0.prems"(7) by linarith
  show ?case
    unfolding dr_def [symmetric]
    by (rule exI [of _ fy], rule exI [of _ u], rule exI [of _ "out ! dr"])
       (intro conjI A B C D E F "0.prems"(3,4,5,6,8))
next
  case (Suc k)
  define t where "t = pixel_tuple_len st"
  define dr where "dr = nat ((int i + oy) mod img_height st)"
  define dc where "dc = (\<lambda>q. nat (((int q + ox) mod img_width st) * t + c))"
  define x where "x = row ! (q0 * nat t)"
  have q0: "q0 < nat (img_width st)" using Suc.hyps(2) by simp
  then have e: "[q0..<nat (img_width st)] = q0 # [Suc q0..<nat (img_width st)]"
    by (simp add: upt_conv_Cons)
  have it: "int (q0 * nat t) = int q0 * t" using p by (simp add: t_def)
  have dr_lt: "dr < length out" using H Suc.prems(1) by (simp add: dr_def)
  have dc_lt: "dc q < nat (img_width st * t)" for q
    unfolding dc_def by (rule dest_col_less) (use W p c in \<open>simp_all add: t_def\<close>)
  have row_len: "length (out ! dr) = nat (img_width st * t)"
    using dr_lt Suc.prems(2) by (simp add: t_def)
  have ii: "0 \<le> int i" "int i < img_height st" using i by simp_all
  have qq: "0 \<le> int q0" "int q0 < img_width st" using q0 by simp_all
  from color_step_wrap [OF H W p c Suc.prems(1,2) ii qq Suc.prems(3,4,5) Suc.prems(6,7,8),
      where x = x]
  obtain fy1 u1 where
    s: "color_step st c ((int i, int q0 * pixel_tuple_len st), x) (fy, u * pixel_tuple_len st + c, out)
          = Inr (fy1, u1 * pixel_tuple_len st + c,
                 out[nat ((int i + oy) mod img_height st) :=
                       (out ! nat ((int i + oy) mod img_height st))
                         [nat (((int q0 + ox) mod img_width st) * pixel_tuple_len st + c) := x]])"
    and y: "- img_height st \<le> fy1" "fy1 + int i < img_height st" "img_height st dvd (fy1 - oy)"
    and xx: "- img_width st \<le> u1" "u1 + int q0 < img_width st" "img_width st dvd (u1 - ox)"
    by auto
  define out1 where "out1 = out[dr := (out ! dr)[dc q0 := x]]"
  have s': "color_step st c ((int i, int (q0 * nat t)), x) (fy, u * t + c, out)
              = Inr (fy1, u1 * t + c, out1)"
    using s p by (simp add: out1_def dr_def dc_def t_def)
  have l1: "length out1 = nat (img_height st)" using Suc.prems(1) by (simp add: out1_def)
  have w1: "\<forall>r \<in> set out1. length r = nat (img_width st * pixel_tuple_len st)"
  proof
    fix r assume "r \<in> set out1"
    then have "r \<in> insert ((out ! dr)[dc q0 := x]) (set out)"
      unfolding out1_def using set_update_subset_insert by fastforce
    then show "length r = nat (img_width st * pixel_tuple_len st)"
      using Suc.prems(2) row_len by (auto simp: t_def)
  qed
  have k: "k = nat (img_width st) - Suc q0" using Suc.hyps(2) by simp
  have y1: "fy1 + int i \<le> img_height st" using y(2) by simp
  have x1: "u1 + int (Suc q0) \<le> img_width st" using xx(2) by simp
  from Suc.hyps(1) [OF k l1 w1 y(1) y1 y(3) xx(1) x1 xx(3)]
  obtain fy' u' newrow where
    r: "color_loop st c
               (map (\<lambda>q. ((int i, int (q * nat (pixel_tuple_len st))),
                            row ! (q * nat (pixel_tuple_len st))))
                    [Suc q0..<nat (img_width st)])
               (fy1, u1 * pixel_tuple_len st + c, out1)
             = Inr (fy', u' * pixel_tuple_len st + c,
                    out1[nat ((int i + oy) mod img_height st) := newrow])"
    and ln: "length newrow = nat (img_width st * pixel_tuple_len st)"
    and nw: "\<forall>q. Suc q0 \<le> q \<and> q < nat (img_width st) \<longrightarrow>
                  newrow ! nat (((int q + ox) mod img_width st) * pixel_tuple_len st + c)
                    = row ! (q * nat (pixel_tuple_len st))"
    and ot: "\<forall>j. (\<forall>q. Suc q0 \<le> q \<and> q < nat (img_width st) \<longrightarrow>
                        j \<noteq> nat (((int q + ox) mod img_width st) * pixel_tuple_len st + c))
                  \<longrightarrow> newrow ! j = out1 ! nat ((int i + oy) mod img_height st) ! j"
    and yy: "- img_height st \<le> fy'" "fy' + int i \<le> img_height st" "img_height st dvd (fy' - oy)"
    and uu: "- img_width st \<le> u'" "u' \<le> img_width st" "img_width st dvd (u' - ox)"
    and u0: "Suc q0 < nat (img_width st) \<longrightarrow> u' \<le> 0"
    and ys: "Suc q0 < nat (img_width st) \<longrightarrow> fy' + int i < img_height st"
    by blast
  have o1: "out1 ! dr = (out ! dr)[dc q0 := x]" using dr_lt by (simp add: out1_def)
  have upd: "out1[dr := newrow] = out[dr := newrow]" by (simp add: out1_def)
  have loop: "color_loop st c
               (map (\<lambda>q. ((int i, int (q * nat (pixel_tuple_len st))),
                            row ! (q * nat (pixel_tuple_len st))))
                    [q0..<nat (img_width st)])
               (fy, u * pixel_tuple_len st + c, out)
             = Inr (fy', u' * pixel_tuple_len st + c,
                    out[nat ((int i + oy) mod img_height st) := newrow])"
    unfolding e using s' r upd by (simp add: t_def x_def dr_def)
  have inj: "dc q \<noteq> dc q0" if "Suc q0 \<le> q" "q < nat (img_width st)" for q
  proof
    assume "dc q = dc q0"
    then have eq: "nat (((int q + ox) mod img_width st) * t + c)
                     = nat (((int q0 + ox) mod img_width st) * t + c)"
      by (simp add: dc_def)
    have tp: "0 < t" using p by (simp add: t_def)
    have "q = q0" by (rule dest_col_inj [OF W tp that(2) q0 eq c(1)])
    with that show False by simp
  qed
  have first: "newrow ! dc q0 = x"
  proof -
    have "newrow ! dc q0 = out1 ! dr ! dc q0"
      using ot inj unfolding dc_def dr_def t_def by metis
    also have "\<dots> = x" using o1 dc_lt [of q0] row_len by simp
    finally show ?thesis .
  qed
  have new: "newrow ! dc q = row ! (q * nat t)" if "q0 \<le> q" "q < nat (img_width st)" for q
  proof (cases "q = q0")
    case True
    then show ?thesis using first by (simp add: x_def)
  next
    case False
    with that have "Suc q0 \<le> q" by simp
    with nw that show ?thesis by (simp add: dc_def t_def)
  qed
  have old: "newrow ! j = out ! dr ! j" if "\<forall>q. q0 \<le> q \<and> q < nat (img_width st) \<longrightarrow> j \<noteq> dc q" for j
  proof -
    have a: "\<forall>q. Suc q0 \<le> q \<and> q < nat (img_width st) \<longrightarrow> j \<noteq> dc q" using that by simp
    have b: "j \<noteq> dc q0" using that q0 by simp
    have "newrow ! j = out1 ! dr ! j" using ot a unfolding dc_def dr_def t_def by blast
    also have "\<dots> = out ! dr ! j" using o1 b by simp
    finally show ?thesis .
  qed
  have ystrict: "fy' + int i < img_height st"
  proof (cases "Suc q0 < nat (img_width st)")
    case True
    with ys show ?thesis by simp
  next
    case False
    then have "[Suc q0..<nat (img_width st)] = []" by simp
    with r have "fy' = fy1" by simp
    with y(2) show ?thesis by simp
  qed
  have uneg: "u' \<le> 0"
  proof (cases "Suc q0 < nat (img_width st)")
    case True
    with u0 show ?thesis by simp
  next
    case False
    then have "[Suc q0..<nat (img_width st)] = []" by simp
    with r have "u' = u1" using p by auto
    moreover have "int q0 = img_width st - 1" using False q0 by linarith
    ultimately show ?thesis using xx(2) by simp
  qed
  show ?case
    using loop ln new old yy uu ystrict uneg
    unfolding dc_def dr_def t_def
    by - (rule exI [of _ fy'], rule exI [of _ u'], rule exI [of _ newrow], simp)
qed

lemma dest_row_inj:
  fixes h oy :: int
  assumes "0 < h" "i1 < nat h" "i2 < nat h"
    and "nat ((int i1 + oy) mod h) = nat ((int i2 + oy) mod h)"
  shows "i1 = i2"
proof -
  have e: "nat (((int i1 + oy) mod h) * 1 + 0) = nat (((int i2 + oy) mod h) * 1 + 0)"
    using assms(4) by simp
  have one: "0 < (1::int)" and zero: "0 \<le> (0::int)" by simp_all
  show ?thesis by (rule dest_col_inj [OF assms(1) one assms(2,3) e zero])
qed

lemma color_rows:
  fixes st :: "'a list list glitcher"
  assumes H: "0 < img_height st" and W: "0 < img_width st" and p: "0 < pixel_tuple_len st"
    and c: "0 \<le> c" "c < pixel_tuple_len st"
  shows "length out = nat (img_height st) \<Longrightarrow>
         \<forall>r \<in> set out. length r = nat (img_width st * pixel_tuple_len st) \<Longrightarrow>
         - img_height st \<le> fy \<Longrightarrow> fy + int i0 \<le> img_height st \<Longrightarrow>
         img_height st dvd (fy - oy) \<Longrightarrow>
         - img_width st \<le> u \<Longrightarrow> u \<le> img_width st \<Longrightarrow>
         img_width st dvd (u - ox) \<Longrightarrow>
         \<exists>fy' u' out'.
           color_loop st c
               (concat (map (\<lambda>i. first_slots (nat (img_width st)) (nat (pixel_tuple_len st)) i (inp ! i))
                            [i0..<nat (img_height st)]))
               (fy, u * pixel_tuple_len st + c, out)
             = Inr (fy', u' * pixel_tuple_len st + c, out')
           \<and> length out' = nat (img_height st)
           \<and> (\<forall>r \<in> set out'. length r = nat (img_width st * pixel_tuple_len st))
           \<and> (\<forall>i. i0 \<le> i \<and> i < nat (img_height st) \<longrightarrow>
                 (\<forall>q < nat (img_width st).
                     out' ! nat ((int i + oy) mod img_height st)
                          ! nat (((int q + ox) mod img_width st) * pixel_tuple_len st + c)
                       = inp ! i ! (q * nat (pixel_tuple_len st)))
                 \<and> (\<forall>j. (\<forall>q < nat (img_width st).
                              j \<noteq> nat (((int q + ox) mod img_width st) * pixel_tuple_len st + c))
                        \<longrightarrow> out' ! nat ((int i + oy) mod img_height st) ! j
                              = out ! nat ((int i + oy) mod img_height st) ! j))
           \<and> (\<forall>r. (\<forall>i. i0 \<le> i \<and> i < nat (img_height st) \<longrightarrow>
                        r \<noteq> nat ((int i + oy) mod img_height st))
                  \<longrightarrow> out' ! r = out ! r)"
proof (induction "nat (img_height st) - i0" arbitrary: i0 fy u out)
  case 0
  have ge: "nat (img_height st) \<le> i0" using "0.hyps" by simp
  then have e: "[i0..<nat (img_height st)] = []" by simp
  have A: "color_loop st c
               (concat (map (\<lambda>i. first_slots (nat (img_width st)) (nat (pixel_tuple_len st)) i (inp ! i))
                            [i0..<nat (img_height st)]))
               (fy, u * pixel_tuple_len st + c, out)
             = Inr (fy, u * pixel_tuple_len st + c, out)"
    unfolding e by simp
  have C: "\<forall>i. i0 \<le> i \<and> i < nat (img_height st) \<longrightarrow>
                 (\<forall>q < nat (img_width st).
                     out ! nat ((int i + oy) mod img_height st)
                          ! nat (((int q + ox) mod img_width st) * pixel_tuple_len st + c)
                       = inp ! i ! (q * nat (pixel_tuple_len st)))
                 \<and> (\<forall>j. (\<forall>q < nat (img_width st).
                              j \<noteq> nat (((int q + ox) mod img_width st) * pixel_tuple_len st + c))
                        \<longrightarrow> out ! nat ((int i + oy) mod img_height st) ! j
                              = out ! nat ((int i + oy) mod img_height st) ! j)"
    using ge by auto
  have D: "\<forall>r. (\<forall>i. i0 \<le> i \<and> i < nat (img_height st) \<longrightarrow>
                        r \<noteq> nat ((int i + oy) mod img_height st))
                  \<longrightarrow> out ! r = out ! r"
    by simp
  show ?case
    by (rule exI [of _ fy], rule exI [of _ u], rule exI [of _ out])
       (intro conjI A C D "0.prems"(1,2))
next
  case (Suc k)
  define t where "t = pixel_tuple_len st"
  define dr where "dr = (\<lambda>i. nat ((int i + oy) mod img_height st))"
  define dc where "dc = (\<lambda>q. nat (((int q + ox) mod img_width st) * t + c))"
  define items where
    "items = (\<lambda>i. first_slots (nat (img_width st)) (nat (pixel_tuple_len st)) i (inp ! i))"
  have i0: "i0 < nat (img_height st)" using Suc.hyps(2) by simp
  then have e: "[i0..<nat (img_height st)] = i0 # [Suc i0..<nat (img_height st)]"
    by (simp add: upt_conv_Cons)
  have wpos: "0 < nat (img_width st)" using W by simp
  have u0: "u + int (0::nat) \<le> img_width st" using Suc.prems(7) by simp
  from color_row [OF H W p c i0 Suc.prems(1,2,3,4,5,6) u0 Suc.prems(8), where row = "inp ! i0"]
  obtain fy1 u1 newrow where
    r1: "color_loop st c (items i0) (fy, u * pixel_tuple_len st + c, out)
           = Inr (fy1, u1 * pixel_tuple_len st + c, out[dr i0 := newrow])"
    and ln: "length newrow = nat (img_width st * pixel_tuple_len st)"
    and nw: "\<forall>q. 0 \<le> q \<and> q < nat (img_width st) \<longrightarrow>
               newrow ! dc q = inp ! i0 ! (q * nat (pixel_tuple_len st))"
    and ot: "\<forall>j. (\<forall>q. 0 \<le> q \<and> q < nat (img_width st) \<longrightarrow> j \<noteq> dc q)
               \<longrightarrow> newrow ! j = out ! dr i0 ! j"
    and y: "- img_height st \<le> fy1" "fy1 + int i0 < img_height st" "img_height st dvd (fy1 - oy)"
    and x: "- img_width st \<le> u1" "u1 \<le> 0" "img_width st dvd (u1 - ox)"
    unfolding items_def first_slots_def dr_def dc_def t_def
    using wpos by blast
  define out1 where "out1 = out[dr i0 := newrow]"
  have dr_lt: "dr i < length out" for i using H Suc.prems(1) by (simp add: dr_def)
  have l1: "length out1 = nat (img_height st)" using Suc.prems(1) by (simp add: out1_def)
  have w1: "\<forall>r \<in> set out1. length r = nat (img_width st * pixel_tuple_len st)"
  proof
    fix r assume "r \<in> set out1"
    then have "r \<in> insert newrow (set out)"
      unfolding out1_def using set_update_subset_insert by fastforce
    then show "length r = nat (img_width st * pixel_tuple_len st)"
      using Suc.prems(2) ln by auto
  qed
  have k: "k = nat (img_height st) - Suc i0" using Suc.hyps(2) by simp
  have y1: "fy1 + int (Suc i0) \<le> img_height st" using y(2) by simp
  have x1: "u1 \<le> img_width st" using x(2) W by simp
  from Suc.hyps(1) [OF k l1 w1 y(1) y1 y(3) x(1) x1 x(3)]
  obtain fy' u' out' where
    r2: "color_loop st c (concat (map items [Suc i0..<nat (img_height st)]))
           (fy1, u1 * pixel_tuple_len st + c, out1)
           = Inr (fy', u' * pixel_tuple_len st + c, out')"
    and l2: "length out' = nat (img_height st)"
    and w2: "\<forall>r \<in> set out'. length r = nat (img_width st * pixel_tuple_len st)"
    and rows: "\<forall>i. Suc i0 \<le> i \<and> i < nat (img_height st) \<longrightarrow>
                 (\<forall>q < nat (img_width st).
                     out' ! dr i ! dc q = inp ! i ! (q * nat (pixel_tuple_len st)))
                 \<and> (\<forall>j. (\<forall>q < nat (img_width st). j \<noteq> dc q)
                        \<longrightarrow> out' ! dr i ! j = out1 ! dr i ! j)"
    and rest: "\<forall>r. (\<forall>i. Suc i0 \<le> i \<and> i < nat (img_height st) \<longrightarrow> r \<noteq> dr i)
                  \<longrightarrow> out' ! r = out1 ! r"
    unfolding items_def dr_def dc_def t_def by blast
  have loop: "color_loop st c (concat (map items [i0..<nat (img_height st)]))
                (fy, u * pixel_tuple_len st + c, out)
              = Inr (fy', u' * pixel_tuple_len st + c, out')"
    unfolding e using r1 r2 by (simp add: color_loop_append out1_def)
  have inj: "dr i \<noteq> dr i0" if "Suc i0 \<le> i" "i < nat (img_height st)" for i
  proof
    assume "dr i = dr i0"
    then have "i = i0" unfolding dr_def by (rule dest_row_inj [OF H that(2) i0])
    with that show False by simp
  qed
  have this_row: "out' ! dr i0 = newrow"
  proof -
    have "out' ! dr i0 = out1 ! dr i0" using rest inj by metis
    then show ?thesis using dr_lt [of i0] by (simp add: out1_def)
  qed
  have other: "out1 ! dr i = out ! dr i" if "Suc i0 \<le> i" "i < nat (img_height st)" for i
    using inj [OF that] by (simp add: out1_def)
  have R: "(\<forall>q < nat (img_width st).
               out' ! dr i ! dc q = inp ! i ! (q * nat (pixel_tuple_len st)))
           \<and> (\<forall>j. (\<forall>q < nat (img_width st). j \<noteq> dc q)
                  \<longrightarrow> out' ! dr i ! j = out ! dr i ! j)"
    if "i0 \<le> i" "i < nat (img_height st)" for i
  proof (cases "i = i0")
    case True
    then show ?thesis using this_row nw ot by simp
  next
    case False
    with that have s: "Suc i0 \<le> i" by simp
    show ?thesis using rows [rule_format, OF conjI [OF s that(2)]] other [OF s that(2)] by simp
  qed
  have Q: "out' ! r = out ! r"
    if "\<forall>i. i0 \<le> i \<and> i < nat (img_height st) \<longrightarrow> r \<noteq> dr i" for r
  proof -
    have "out' ! r = out1 ! r" using rest that by simp
    moreover have "r \<noteq> dr i0" using that i0 by simp
    ultimately show ?thesis by (simp add: out1_def)
  qed
  show ?case
    using loop l2 w2 R Q
    unfolding items_def dr_def dc_def t_def
    by - (rule exI [of _ fy'], rule exI [of _ u'], rule exI [of _ out'], simp)
qed

lemma dest_row_onto:
  fixes h oy :: int
  assumes "0 < h" "r < nat h"
  shows "\<exists>i < nat h. nat ((int i + oy) mod h) = r"
proof -
  define i where "i = nat ((int r - oy) mod h)"
  have "0 \<le> (int r - oy) mod h" "(int r - oy) mod h < h" using assms by simp_all
  then have ii: "int i = (int r - oy) mod h" "i < nat h" by (simp_all add: i_def)
  have "(int i + oy) mod h = ((int r - oy) mod h + oy) mod h" by (simp add: ii)
  also have "\<dots> = (int r - oy + oy) mod h" by (rule mod_add_left_eq)
  also have "\<dots> = int r" using assms by simp
  finally have "nat ((int i + oy) mod h) = r" by simp
  with ii(2) show ?thesis by blast
qed

lemma dest_col_channel:
  fixes w t c a :: int
  assumes "0 < t" "0 \<le> c" "c < t" "0 < w"
  shows "int (nat ((a mod w) * t + c)) mod t = c"
proof -
  have "0 \<le> a mod w" using assms by simp
  then have "0 \<le> (a mod w) * t + c" using assms by simp
  then have "int (nat ((a mod w) * t + c)) = (a mod w) * t + c" by simp
  then show ?thesis using assms by simp
qed

text \<open>
  For \<open>-height \<le> offset_y \<le> height\<close> and \<open>-width \<le> offset_x \<le> width\<close> the call returns, the
  sample read at \<open>(i, q * p)\<close> is found in the output at the destination of the
  specification, and every output sample outside the selected channel is as it was.
\<close>

lemma color_offset_in_range:
  fixes st :: "'a list list glitcher"
  assumes wf: "wf2 st"
    and H: "0 < img_height st" and W: "0 < img_width st"
    and c: "0 \<le> channel_index" "channel_index < pixel_tuple_len st"
    and oy: "- img_height st \<le> offset_y" "offset_y \<le> img_height st"
    and ox: "- img_width st \<le> offset_x" "offset_x \<le> img_width st"
  shows "\<exists>out'.
           color_offset offset_x offset_y channel_index st = Inr (st\<lparr>outputarr := out'\<rparr>)
           \<and> length out' = nat (img_height st)
           \<and> (\<forall>r \<in> set out'. length r = nat (img_width st * pixel_tuple_len st))
           \<and> (\<forall>i < nat (img_height st). \<forall>q < nat (img_width st).
                 out' ! wrapped_row (img_height st) offset_y i
                      ! wrapped_col (img_width st) (pixel_tuple_len st) channel_index offset_x
                          (q * nat (pixel_tuple_len st))
                   = inputarr st ! i ! (q * nat (pixel_tuple_len st)))
           \<and> (\<forall>r < nat (img_height st). \<forall>j.
                 int j mod pixel_tuple_len st \<noteq> channel_index
                 \<longrightarrow> out' ! r ! j = outputarr st ! r ! j)"
proof -
  define t where "t = pixel_tuple_len st"
  have p: "0 < pixel_tuple_len st" using wf by (simp add: wf2_def)
  have lo: "length (outputarr st) = nat (img_height st)"
    and li: "length (inputarr st) = nat (img_height st)"
    and wo: "\<forall>r \<in> set (outputarr st). length r = nat (img_width st * pixel_tuple_len st)"
    and wi: "list_all (\<lambda>row. length row = nat (img_width st) * nat (pixel_tuple_len st)) (inputarr st)"
    using wf W p by (simp_all add: wf2_def list_all_iff nat_mult_distrib)
  have x0: "(if offset_x \<noteq> 0 then offset_x * pixel_tuple_len st + channel_index else channel_index)
              = offset_x * pixel_tuple_len st + channel_index"
    by simp
  have pn: "0 < nat (pixel_tuple_len st)" "int (nat (pixel_tuple_len st)) = pixel_tuple_len st"
    using p by simp_all
  have filt: "color_loop st channel_index (ndenumerate (inputarr st)) s
                = color_loop st channel_index
                    (concat (map (\<lambda>i. first_slots (nat (img_width st)) (nat (pixel_tuple_len st)) i
                                          (inputarr st ! i))
                                 [0..<nat (img_height st)])) s" for s
  proof -
    have "pixel_tuple_len st \<noteq> 0" using p by simp
    from color_loop_filter [OF this, of channel_index "ndenumerate (inputarr st)" s]
    have "color_loop st channel_index (ndenumerate (inputarr st)) s
            = color_loop st channel_index
                (filter (\<lambda>e. snd (fst e) mod int (nat (pixel_tuple_len st)) = 0)
                   (ndenumerate (inputarr st))) s"
      by (simp only: pn(2))
    then show ?thesis by (simp only: filter_ndenumerate [OF pn(1) wi] li)
  qed
  have y0: "offset_y + int (0::nat) \<le> img_height st" using oy by simp
  have dy: "img_height st dvd (offset_y - offset_y)" and dx: "img_width st dvd (offset_x - offset_x)"
    by simp_all
  from color_rows [OF H W p c lo wo oy(1) y0 dy ox(1) ox(2) dx, where inp = "inputarr st"]
  obtain fy' u' out' where
    loop: "color_loop st channel_index
               (concat (map (\<lambda>i. first_slots (nat (img_width st)) (nat (pixel_tuple_len st)) i
                                     (inputarr st ! i))
                            [0..<nat (img_height st)]))
               (offset_y, offset_x * pixel_tuple_len st + channel_index, outputarr st)
             = Inr (fy', u' * pixel_tuple_len st + channel_index, out')"
    and l: "length out' = nat (img_height st)"
    and w: "\<forall>r \<in> set out'. length r = nat (img_width st * pixel_tuple_len st)"
    and rows: "\<forall>i. 0 \<le> i \<and> i < nat (img_height st) \<longrightarrow>
                 (\<forall>q < nat (img_width st).
                     out' ! nat ((int i + offset_y) mod img_height st)
                          ! nat (((int q + offset_x) mod img_width st) * pixel_tuple_len st + channel_index)
                       = inputarr st ! i ! (q * nat (pixel_tuple_len st)))
                 \<and> (\<forall>j. (\<forall>q < nat (img_width st).
                              j \<noteq> nat (((int q + offset_x) mod img_width st) * pixel_tuple_len st + channel_index))
                        \<longrightarrow> out' ! nat ((int i + offset_y) mod img_height st) ! j
                              = outputarr st ! nat ((int i + offset_y) mod img_height st) ! j)"
    by blast
  have eq: "color_offset offset_x offset_y channel_index st = Inr (st\<lparr>outputarr := out'\<rparr>)"
    unfolding color_offset_def Let_def x0 filt loop by simp
  have col: "wrapped_col (img_width st) (pixel_tuple_len st) channel_index offset_x
               (q * nat (pixel_tuple_len st))
             = nat (((int q + offset_x) mod img_width st) * pixel_tuple_len st + channel_index)" for q
  proof -
    have a: "int (q * nat (pixel_tuple_len st)) = int q * pixel_tuple_len st"
      using p by simp
    have "int (q * nat (pixel_tuple_len st)) + (offset_x * pixel_tuple_len st + channel_index)
            = (int q + offset_x) * pixel_tuple_len st + channel_index"
      unfolding a by (simp add: algebra_simps)
    then have "wrapped_col (img_width st) (pixel_tuple_len st) channel_index offset_x
                 (q * nat (pixel_tuple_len st))
               = nat (((int q + offset_x) * pixel_tuple_len st + channel_index)
                      mod (img_width st * pixel_tuple_len st))"
      by (simp only: wrapped_col_def)
    then show ?thesis by (simp only: tuple_index_mod [OF p c W])
  qed
  have written: "out' ! wrapped_row (img_height st) offset_y i
                      ! wrapped_col (img_width st) (pixel_tuple_len st) channel_index offset_x
                          (q * nat (pixel_tuple_len st))
                   = inputarr st ! i ! (q * nat (pixel_tuple_len st))"
    if "i < nat (img_height st)" "q < nat (img_width st)" for i q
    using rows that by (simp add: col wrapped_row_def)
  have kept: "out' ! r ! j = outputarr st ! r ! j"
    if r: "r < nat (img_height st)" and j: "int j mod pixel_tuple_len st \<noteq> channel_index" for r j
  proof -
    from dest_row_onto [OF H r] obtain i where
      i: "i < nat (img_height st)" "nat ((int i + offset_y) mod img_height st) = r"
      by blast
    have "j \<noteq> nat (((int q + offset_x) mod img_width st) * pixel_tuple_len st + channel_index)" for q
      using j dest_col_channel [OF p c W, of "int q + offset_x"] by auto
    then show ?thesis using rows i by auto
  qed
  from eq l w written kept show ?thesis by blast
qed

text \<open>
  With both offsets 0, slot \<open>channel_index\<close> of every pixel of the output receives slot 0
  of the same pixel of the input.
\<close>

lemma color_offset_zero_offsets:
  fixes st :: "'a list list glitcher"
  assumes wf: "wf2 st"
    and H: "0 < img_height st" and W: "0 < img_width st"
    and c: "0 \<le> channel_index" "channel_index < pixel_tuple_len st"
  shows "\<exists>out'.
           color_offset 0 0 channel_index st = Inr (st\<lparr>outputarr := out'\<rparr>)
           \<and> (\<forall>i < nat (img_height st). \<forall>q < nat (img_width st).
                 out' ! i ! (q * nat (pixel_tuple_len st) + nat channel_index)
                   = inputarr st ! i ! (q * nat (pixel_tuple_len st)))
           \<and> (\<forall>r < nat (img_height st). \<forall>j.
                 int j mod pixel_tuple_len st \<noteq> channel_index
                 \<longrightarrow> out' ! r ! j = outputarr st ! r ! j)"
proof -
  have p: "0 < pixel_tuple_len st" using wf by (simp add: wf2_def)
  have oy: "- img_height st \<le> 0" "0 \<le> img_height st"
    and ox: "- img_width st \<le> 0" "0 \<le> img_width st"
    using H W by simp_all
  from color_offset_in_range [OF wf H W c oy ox] obtain out' where
    eq: "color_offset 0 0 channel_index st = Inr (st\<lparr>outputarr := out'\<rparr>)"
    and wr: "\<forall>i < nat (img_height st). \<forall>q < nat (img_width st).
                 out' ! wrapped_row (img_height st) 0 i
                      ! wrapped_col (img_width st) (pixel_tuple_len st) channel_index 0
                          (q * nat (pixel_tuple_len st))
                   = inputarr st ! i ! (q * nat (pixel_tuple_len st))"
    and kp: "\<forall>r < nat (img_height st). \<forall>j.
                 int j mod pixel_tuple_len st \<noteq> channel_index
                 \<longrightarrow> out' ! r ! j = outputarr st ! r ! j"
    by blast
  have row: "wrapped_row (img_height st) 0 i = i" if "i < nat (img_height st)" for i
    using that by (simp add: wrapped_row_def)
  have col: "wrapped_col (img_width st) (pixel_tuple_len st) channel_index 0
               (q * nat (pixel_tuple_len st))
             = q * nat (pixel_tuple_len st) + nat channel_index"
    if q: "q < nat (img_width st)" for q
  proof -
    have a: "int (q * nat (pixel_tuple_len st)) = int q * pixel_tuple_len st"
      using p by simp
    have "int q \<le> img_width st - 1" using q by linarith
    then have "int q * pixel_tuple_len st \<le> (img_width st - 1) * pixel_tuple_len st"
      using p by (simp add: mult_right_mono)
    then have hi: "int q * pixel_tuple_len st + channel_index
                     < img_width st * pixel_tuple_len st"
      using c by (simp add: algebra_simps)
    have lo: "0 \<le> int q * pixel_tuple_len st + channel_index" using p c by simp
    have "(int q * pixel_tuple_len st + channel_index) mod (img_width st * pixel_tuple_len st)
            = int q * pixel_tuple_len st + channel_index"
      using lo hi by (rule mod_pos_pos_trivial)
    then have "wrapped_col (img_width st) (pixel_tuple_len st) channel_index 0
                 (q * nat (pixel_tuple_len st))
               = nat (int q * pixel_tuple_len st + channel_index)"
      unfolding wrapped_col_def a by simp
    also have "\<dots> = q * nat (pixel_tuple_len st) + nat channel_index"
      using p c by (simp add: nat_add_distrib nat_mult_distrib)
    finally show ?thesis .
  qed
  have "out' ! i ! (q * nat (pixel_tuple_len st) + nat channel_index)
          = inputarr st ! i ! (q * nat (pixel_tuple_len st))"
    if "i < nat (img_height st)" "q < nat (img_width st)" for i q
    using wr [rule_format, OF that] row [OF that(1)] col [OF that(2)] by simp
  with eq kp show ?thesis by blast
qed

section \<open>Channel offset: evaluations\<close>

text \<open>
  Claim C1 says that every sample is written at \<open>(row + offset) mod dimension\<close> on each
  axis, also for negative offsets and for magnitudes beyond the dimension. For offsets
  of magnitude up to the dimension this is lemma \<open>color_offset_in_range\<close>. Beyond it the
  code does not wrap. On the 2 x 2 single-band example: offset 1 on either axis swaps
  the two rows (columns); offset 3, which is 1 modulo 2, leaves the buffer as it is (the
  wrap test fires at the first element and resets the offset to 0); offset -3, also 1
  modulo 2, raises IndexError at the first write. \<^verbatim>\<open>glitch_image\<close> at intensity 2 draws
  offsets from \<open>[-4, 4]\<close> and fails so on this image.
\<close>

theorem offset_beyond_dimension_not_wrapped:
  "color_offset 0 1 0 grey_state = Inr (grey_state\<lparr>outputarr := [[3, 4], [1, 2]]\<rparr>)
   \<and> color_offset 0 3 0 grey_state = Inr (grey_state\<lparr>outputarr := [[1, 2], [3, 4]]\<rparr>)
   \<and> color_offset 0 (- 3) 0 grey_state = Inl IndexOutOfBounds
   \<and> color_offset 1 0 0 grey_state = Inr (grey_state\<lparr>outputarr := [[2, 1], [4, 3]]\<rparr>)
   \<and> color_offset 3 0 0 grey_state = Inr (grey_state\<lparr>outputarr := [[1, 2], [3, 4]]\<rparr>)
   \<and> color_offset (- 3) 0 0 grey_state = Inl IndexOutOfBounds
   \<and> glitch_image (Decoded grey_image) 2 [0, 0, 0, 0, 4, 1, 0] = Inl IndexOutOfBounds"
  by code_simp

text \<open>
  Claim C2 says that the positions read are those of the selected channel, so that the
  value written into a slot of channel \<open>c\<close> is the source's sample of channel \<open>c\<close>. The
  loop test \<^verbatim>\<open>index[1] % pixel_tuple_len == 0\<close> selects the positions of channel 0 whatever
  the channel index is (lemmas \<open>color_step_skip\<close> and \<open>color_offset_zero_offsets\<close>). On the
  2 x 2 three-band example with channel 1 and no offset, the channel-1 slots receive the
  channel-0 samples 1, 4, 7, 10 instead of 2, 5, 8, 11.
\<close>

theorem channel_values_read_from_first_slot:
  "color_offset 0 0 1 rgb_state
     = Inr (rgb_state\<lparr>outputarr := [[1, 1, 3, 4, 4, 6], [7, 7, 9, 10, 10, 12]]\<rparr>)
   \<and> inputarr rgb_state = [[1, 2, 3, 4, 5, 6], [7, 8, 9, 10, 11, 12]]"
  by code_simp

text \<open>
  Claim C3 says that with both offsets 0 and the output a copy of the input the selected
  channel's samples stay as they are. This holds for channel 0; for any other channel
  the slots of that channel are overwritten with the channel-0 samples (lemma
  \<open>color_offset_zero_offsets\<close>). On the 2 x 2 three-band example with channel 2, the slots
  3, 6, 9, 12 become 1, 4, 7, 10.
\<close>

theorem zero_offset_changes_other_channels:
  "outputarr rgb_state = inputarr rgb_state
   \<and> color_offset 0 0 0 rgb_state = Inr rgb_state
   \<and> color_offset 0 0 2 rgb_state
     = Inr (rgb_state\<lparr>outputarr := [[1, 2, 1, 4, 5, 4], [7, 8, 7, 10, 11, 10]]\<rparr>)"
  by code_simp

end
